theory Spec2Isabelle
  imports Main
begin

section \<open>Python values, dictionaries and exceptions\<close>

text \<open>
  The record store of \<^verbatim>\<open>src/data_management.py\<close> keeps a list of user dictionaries.
  The values stored under the keys of a user are the ones the data model names: strings
  (\<^verbatim>\<open>id\<close>, \<^verbatim>\<open>name\<close>, \<^verbatim>\<open>email\<close>), integers (\<^verbatim>\<open>age\<close>) and \<^verbatim>\<open>None\<close> (an omitted argument,
  a JSON null). On these three kinds Python's \<^verbatim>\<open>==\<close> is structural equality, which is HOL's
  \<open>=\<close>. A string is a list of characters, each standing for a code point below 256.
\<close>

datatype pyval = VNone | VInt int | VStr string

datatype error = KeyError | TypeError | AttributeError | ValueError | JSONDecodeError

text \<open>Truthiness, as the \<^verbatim>\<open>if x:\<close> tests of the source read it.\<close>

fun truthy :: "pyval \<Rightarrow> bool" where
  "truthy VNone = False"
| "truthy (VInt i) = (i \<noteq> 0)"
| "truthy (VStr s) = (s \<noteq> [])"

text \<open>
  A dictionary is an association list in insertion order; a dictionary has every key once.
  \<open>getitem\<close> is \<^verbatim>\<open>d[k]\<close>, which raises \<^verbatim>\<open>KeyError\<close> on a missing key.
\<close>

type_synonym dict = "(string \<times> pyval) list"

definition getitem :: "dict \<Rightarrow> string \<Rightarrow> error + pyval" where
  "getitem d k = (case map_of d k of None \<Rightarrow> Inl KeyError | Some v \<Rightarrow> Inr v)"

text \<open>\<^verbatim>\<open>d[k] = v\<close>: an existing key keeps its position, a new key goes to the end.\<close>

fun setitem :: "string \<Rightarrow> pyval \<Rightarrow> dict \<Rightarrow> dict" where
  "setitem k v [] = [(k, v)]"
| "setitem k v ((k', v') # d) = (if k' = k then (k, v) # d else (k', v') # setitem k v d)"

text \<open>\<^verbatim>\<open>d.update(other)\<close>: every item of \<open>other\<close>, in its order, is stored in \<open>d\<close>.\<close>

fun dict_update :: "dict \<Rightarrow> dict \<Rightarrow> dict" where
  "dict_update d [] = d"
| "dict_update d ((k, v) # other) = dict_update (setitem k v d) other"

text \<open>
  Python compares dictionaries by content, not by the order of their keys:
  \<^verbatim>\<open>a == b\<close> holds when both have the same keys with equal values.
\<close>

definition dict_eq :: "dict \<Rightarrow> dict \<Rightarrow> bool" where
  "dict_eq a b = list_all (\<lambda>k. map_of a k = map_of b k) (map fst a @ map fst b)"

text \<open>
  \<^verbatim>\<open>xs.remove(x)\<close> deletes the first element equal to \<open>x\<close> and raises \<^verbatim>\<open>ValueError\<close>
  when there is none.
\<close>

fun list_remove :: "dict \<Rightarrow> dict list \<Rightarrow> error + dict list" where
  "list_remove x [] = Inl ValueError"
| "list_remove x (y # ys) =
     (if dict_eq y x then Inr ys
      else (case list_remove x ys of Inl e \<Rightarrow> Inl e | Inr zs \<Rightarrow> Inr (y # zs)))"

text \<open>
  \<^verbatim>\<open>s.lower()\<close>: among the code points below 256 the letters with a lower-case
  partner are A to Z and the Latin-1 capitals from 192 to 222 other than the multiplication
  sign 215, and the partner is 32 places further. A value that is no string has no such
  method.
\<close>

definition lower_char :: "char \<Rightarrow> char" where
  "lower_char c =
     (let n = (of_char c :: nat)
      in if (65 \<le> n \<and> n \<le> 90) \<or> (192 \<le> n \<and> n \<le> 222 \<and> n \<noteq> 215) then char_of (n + 32)
         else c)"

fun str_lower :: "pyval \<Rightarrow> error + string" where
  "str_lower (VStr s) = Inr (map lower_char s)"
| "str_lower v = Inl AttributeError"


section \<open>The regular expression of \<open>validate_email\<close>\<close>

text \<open>
  The pattern \<^verbatim>\<open>(^[a-zA-Z0-9_.+-]+@[a-zA-Z0-9-]+\.[a-zA-Z0-9-.]+$)\<close> is a sequence of items:
  the anchors, literal characters and one-or-more repetitions of a character class. The
  group around the whole pattern does not change what matches. A class is a list of ranges
  and single characters.
\<close>

datatype cls_item = Range char char | Single char

datatype re_item = Caret | Dollar | Lit char | PlusCls "cls_item list"

fun in_item :: "char \<Rightarrow> cls_item \<Rightarrow> bool" where
  "in_item c (Range lo hi) = ((of_char lo :: nat) \<le> of_char c \<and> (of_char c :: nat) \<le> of_char hi)"
| "in_item c (Single x) = (c = x)"

definition in_cls :: "cls_item list \<Rightarrow> char \<Rightarrow> bool" where
  "in_cls cls c = list_ex (in_item c) cls"

text \<open>
  The matcher follows the backtracking engine: a state is the number of characters
  consumed and the rest of the subject, and an item maps a state to the states it can
  leave behind, longest repetition first. Without the MULTILINE flag \<^verbatim>\<open>^\<close> matches at
  position 0 only, and \<^verbatim>\<open>$\<close> matches at the end of the subject and before a newline that
  is its last character.
\<close>

fun plus_matches :: "cls_item list \<Rightarrow> nat \<Rightarrow> string \<Rightarrow> (nat \<times> string) list" where
  "plus_matches cls p [] = []"
| "plus_matches cls p (x # r) =
     (if in_cls cls x then plus_matches cls (Suc p) r @ [(Suc p, r)] else [])"

fun match_item :: "re_item \<Rightarrow> nat \<times> string \<Rightarrow> (nat \<times> string) list" where
  "match_item Caret (p, s) = (if p = 0 then [(p, s)] else [])"
| "match_item Dollar (p, s) = (if s = [] \<or> s = [CHR 0x0A] then [(p, s)] else [])"
| "match_item (Lit c) (p, s) =
     (case s of [] \<Rightarrow> [] | x # r \<Rightarrow> if x = c then [(Suc p, r)] else [])"
| "match_item (PlusCls cls) (p, s) = plus_matches cls p s"

fun match_seq :: "re_item list \<Rightarrow> nat \<times> string \<Rightarrow> (nat \<times> string) list" where
  "match_seq [] st = [st]"
| "match_seq (i # items) st = concat (map (match_seq items) (match_item i st))"

text \<open>\<^verbatim>\<open>re.match(pattern, s) is not None\<close>: some run of the pattern from position 0.\<close>

definition re_match :: "re_item list \<Rightarrow> string \<Rightarrow> bool" where
  "re_match items s = (match_seq items (0, s) \<noteq> [])"

definition alnum :: "cls_item list" where
  "alnum = [Range CHR ''a'' CHR ''z'', Range CHR ''A'' CHR ''Z'', Range CHR ''0'' CHR ''9'']"

definition email_regex :: "re_item list" where
  "email_regex =
     [Caret,
      PlusCls (alnum @ [Single CHR ''_'', Single CHR ''.'', Single CHR ''+'', Single CHR ''-'']),
      Lit CHR ''@'',
      PlusCls (alnum @ [Single CHR ''-'']),
      Lit CHR ''.'',
      PlusCls (alnum @ [Single CHR ''-'', Single CHR ''.'']),
      Dollar]"

text \<open>\<^verbatim>\<open>re.match\<close> raises \<^verbatim>\<open>TypeError\<close> on a subject that is no string.\<close>

fun validate_email :: "pyval \<Rightarrow> error + bool" where
  "validate_email (VStr s) = Inr (re_match email_regex s)"
| "validate_email v = Inl TypeError"


section \<open>The record store\<close>

text \<open>
  The state is the object's two attributes together with what its methods touch outside
  the object: the files (a map from names to contents) and the lines printed so far.
  The operations take the encoder and the decoder of the file as parameters \<open>dump\<close> and
  \<open>load\<close>, and \<open>'f\<close> is the type of file contents; the section on the JSON file defines
  the ones of the \<^verbatim>\<open>json\<close> module, \<open>json_dumps\<close> and \<open>json_loads\<close>, on text.
\<close>

record 'f state =
  filename :: string
  users :: "dict list"
  files :: "string \<rightharpoonup> 'f"
  stdout :: "string list"

definition py_print :: "string \<Rightarrow> 'f state \<Rightarrow> 'f state" where
  "py_print msg s = s\<lparr>stdout := stdout s @ [msg]\<rparr>"

definition load_users :: "('f \<Rightarrow> error + dict list) \<Rightarrow> 'f state \<Rightarrow> (error + unit) \<times> 'f state" where
  "load_users load s =
     (case files s (filename s) of
        Some content \<Rightarrow>
          (case load content of
             Inl e \<Rightarrow> (Inl e, s)
           | Inr us \<Rightarrow> (Inr (), s\<lparr>users := us\<rparr>))
      | None \<Rightarrow> (Inr (), s\<lparr>users := []\<rparr>))"

definition save_users :: "(dict list \<Rightarrow> 'f) \<Rightarrow> 'f state \<Rightarrow> 'f state" where
  "save_users dump s = s\<lparr>files := (files s)(filename s \<mapsto> dump (users s))\<rparr>"

text \<open>\<^verbatim>\<open>__init__\<close>: the attributes are set and the collection is loaded.\<close>

definition init :: "('f \<Rightarrow> error + dict list) \<Rightarrow> string \<Rightarrow> (string \<rightharpoonup> 'f) \<Rightarrow> string list
    \<Rightarrow> (error + unit) \<times> 'f state" where
  "init load fname fs out =
     load_users load \<lparr>filename = fname, users = [], files = fs, stdout = out\<rparr>"

text \<open>
  \<open>read_user\<close> returns a user, \<^verbatim>\<open>None\<close> or the whole list; the three are kept apart by a
  tagged union, with the truth value the caller's \<^verbatim>\<open>if\<close> gives each.
\<close>

datatype read_result = RUser dict | RNone | RAll "dict list"

fun result_truthy :: "read_result \<Rightarrow> bool" where
  "result_truthy (RUser d) = (d \<noteq> [])"
| "result_truthy RNone = False"
| "result_truthy (RAll us) = (us \<noteq> [])"

fun read_loop :: "dict list \<Rightarrow> pyval \<Rightarrow> error + read_result" where
  "read_loop [] user_id = Inr RNone"
| "read_loop (user # rest) user_id =
     (case getitem user ''id'' of
        Inl e \<Rightarrow> Inl e
      | Inr v \<Rightarrow> if v = user_id then Inr (RUser user) else read_loop rest user_id)"

definition read_user :: "'f state \<Rightarrow> pyval \<Rightarrow> error + read_result" where
  "read_user s user_id =
     (if truthy user_id then read_loop (users s) user_id else Inr (RAll (users s)))"

definition create_user :: "(dict list \<Rightarrow> 'f) \<Rightarrow> 'f state \<Rightarrow> dict \<Rightarrow> (error + bool) \<times> 'f state" where
  "create_user dump s user =
     (case getitem user ''id'' of
        Inl e \<Rightarrow> (Inl e, s)
      | Inr uid \<Rightarrow>
     (case read_user s uid of
        Inl e \<Rightarrow> (Inl e, s)
      | Inr found \<Rightarrow>
     if result_truthy found then (Inr False, py_print ''User with this ID already exists.'' s)
     else
     (case getitem user ''email'' of
        Inl e \<Rightarrow> (Inl e, s)
      | Inr email \<Rightarrow>
     (case validate_email email of
        Inl e \<Rightarrow> (Inl e, s)
      | Inr valid \<Rightarrow>
     if \<not> valid then (Inr False, py_print ''Invalid email format.'' s)
     else (Inr True, save_users dump (s\<lparr>users := users s @ [user]\<rparr>))))))"

text \<open>
  The loop of \<open>update_user\<close> over \<^verbatim>\<open>self.users\<close>: \<open>before\<close> holds the users already passed,
  so that the updated list can be put together at the match.
\<close>

fun update_loop :: "(dict list \<Rightarrow> 'f) \<Rightarrow> 'f state \<Rightarrow> dict list \<Rightarrow> dict list \<Rightarrow> pyval \<Rightarrow> dict
    \<Rightarrow> (error + bool) \<times> 'f state" where
  "update_loop dump s before [] user_id updated_user = (Inr False, s)"
| "update_loop dump s before (user # rest) user_id updated_user =
     (case getitem user ''id'' of
        Inl e \<Rightarrow> (Inl e, s)
      | Inr v \<Rightarrow>
     if v = user_id then
       (case (case map_of updated_user ''email'' of
                None \<Rightarrow> Inr True
              | Some email \<Rightarrow> validate_email email) of
          Inl e \<Rightarrow> (Inl e, s)
        | Inr valid \<Rightarrow>
       if \<not> valid then (Inr False, py_print ''Invalid email format.'' s)
       else (Inr True,
             save_users dump (s\<lparr>users := before @ dict_update user updated_user # rest\<rparr>)))
     else update_loop dump s (before @ [user]) rest user_id updated_user)"

definition update_user :: "(dict list \<Rightarrow> 'f) \<Rightarrow> 'f state \<Rightarrow> pyval \<Rightarrow> dict \<Rightarrow> (error + bool) \<times> 'f state" where
  "update_user dump s user_id updated_user = update_loop dump s [] (users s) user_id updated_user"

fun delete_loop :: "(dict list \<Rightarrow> 'f) \<Rightarrow> 'f state \<Rightarrow> dict list \<Rightarrow> pyval \<Rightarrow> (error + bool) \<times> 'f state" where
  "delete_loop dump s [] user_id = (Inr False, s)"
| "delete_loop dump s (user # rest) user_id =
     (case getitem user ''id'' of
        Inl e \<Rightarrow> (Inl e, s)
      | Inr v \<Rightarrow>
     if v = user_id then
       (case list_remove user (users s) of
          Inl e \<Rightarrow> (Inl e, s)
        | Inr us \<Rightarrow> (Inr True, save_users dump (s\<lparr>users := us\<rparr>)))
     else delete_loop dump s rest user_id)"

definition delete_user :: "(dict list \<Rightarrow> 'f) \<Rightarrow> 'f state \<Rightarrow> pyval \<Rightarrow> (error + bool) \<times> 'f state" where
  "delete_user dump s user_id = delete_loop dump s (users s) user_id"

text \<open>
  The three list comprehensions of \<open>search_users\<close>. Each evaluates, for every user in turn,
  the left operand of \<^verbatim>\<open>==\<close> and then the right one, and stops at the first exception.
\<close>

fun filter_lower :: "string \<Rightarrow> dict list \<Rightarrow> pyval \<Rightarrow> error + dict list" where
  "filter_lower key [] wanted = Inr []"
| "filter_lower key (user # rest) wanted =
     (case getitem user key of Inl e \<Rightarrow> Inl e | Inr v \<Rightarrow>
     (case str_lower v of Inl e \<Rightarrow> Inl e | Inr a \<Rightarrow>
     (case str_lower wanted of Inl e \<Rightarrow> Inl e | Inr b \<Rightarrow>
     (case filter_lower key rest wanted of Inl e \<Rightarrow> Inl e | Inr res \<Rightarrow>
        Inr (if a = b then user # res else res)))))"

fun filter_age :: "dict list \<Rightarrow> pyval \<Rightarrow> error + dict list" where
  "filter_age [] age = Inr []"
| "filter_age (user # rest) age =
     (case getitem user ''age'' of Inl e \<Rightarrow> Inl e | Inr v \<Rightarrow>
     (case filter_age rest age of Inl e \<Rightarrow> Inl e | Inr res \<Rightarrow>
        Inr (if v = age then user # res else res)))"

definition search_users :: "'f state \<Rightarrow> pyval \<Rightarrow> pyval \<Rightarrow> pyval \<Rightarrow> error + dict list" where
  "search_users s name email age =
     (case (if truthy name then filter_lower ''name'' (users s) name else Inr (users s)) of
        Inl e \<Rightarrow> Inl e
      | Inr results1 \<Rightarrow>
     (case (if truthy email then filter_lower ''email'' results1 email else Inr results1) of
        Inl e \<Rightarrow> Inl e
      | Inr results2 \<Rightarrow>
     if truthy age then filter_age results2 age else Inr results2))"


section \<open>The JSON file\<close>

text \<open>
  \<^verbatim>\<open>json.dump(self.users, file, indent=4)\<close> and \<^verbatim>\<open>json.load(file)\<close> on the values of this
  model: a list of dictionaries whose values are strings, integers and \<^verbatim>\<open>None\<close>. The file
  holds text. A character stands for a code point below 256. Documents with other values
  (booleans, floats, nested containers, code points from 256 on, a top level that is no
  array) are outside the model, and \<open>json_loads\<close> answers them like malformed text.
\<close>

definition dq :: char where "dq = CHR 0x22"

definition bs :: char where "bs = CHR 0x5C"

text \<open>
  Strings are written with \<^verbatim>\<open>ensure_ascii\<close>: the quote, the backslash and five control
  characters have two-character escapes, every other character outside the printable
  ASCII range is written \<^verbatim>\<open>\u00XX\<close> with lower-case hexadecimal digits.
\<close>

definition hex_digit :: "nat \<Rightarrow> char" where
  "hex_digit n = ''0123456789abcdef'' ! n"

definition hex_val :: "char \<Rightarrow> nat option" where
  "hex_val c =
     map_of (zip ''0123456789abcdefABCDEF''
               [0, 1, 2, 3, 4, 5, 6, 7, 8, 9, 10, 11, 12, 13, 14, 15, 10, 11, 12, 13, 14, 15]) c"

definition escape_char :: "char \<Rightarrow> string" where
  "escape_char c =
     (if c = dq then [bs, dq]
      else if c = bs then [bs, bs]
      else if c = CHR 0x0A then [bs, CHR ''n'']
      else if c = CHR 0x0D then [bs, CHR ''r'']
      else if c = CHR 0x09 then [bs, CHR ''t'']
      else if c = CHR 0x08 then [bs, CHR ''b'']
      else if c = CHR 0x0C then [bs, CHR ''f'']
      else if (of_char c :: nat) < 32 \<or> 126 < (of_char c :: nat)
        then [bs, CHR ''u'', CHR ''0'', CHR ''0'',
              hex_digit (of_char c div 16), hex_digit (of_char c mod 16)]
      else [c])"

definition dump_str :: "string \<Rightarrow> string" where
  "dump_str s = dq # concat (map escape_char s) @ [dq]"

text \<open>
  Reading a string after its opening quote, one character at a time: plain text, the
  character after a backslash, and the four hexadecimal digits after \<^verbatim>\<open>\u\<close>. A raw control
  character ends the scan with an error (the decoder is strict). The result is the string
  and the text after the closing quote.
\<close>

definition unescape :: "char \<Rightarrow> char option" where
  "unescape c =
     (if c = dq then Some dq
      else if c = bs then Some bs
      else if c = CHR ''/'' then Some CHR ''/''
      else if c = CHR ''b'' then Some (CHR 0x08)
      else if c = CHR ''f'' then Some (CHR 0x0C)
      else if c = CHR ''n'' then Some (CHR 0x0A)
      else if c = CHR ''r'' then Some (CHR 0x0D)
      else if c = CHR ''t'' then Some (CHR 0x09)
      else None)"

datatype scan_mode = Plain | Escape | Hex "nat list"

definition cons_result :: "char \<Rightarrow> (string \<times> string) option \<Rightarrow> (string \<times> string) option" where
  "cons_result c res = (case res of None \<Rightarrow> None | Some (s, rest) \<Rightarrow> Some (c # s, rest))"

fun scanstring :: "scan_mode \<Rightarrow> string \<Rightarrow> (string \<times> string) option" where
  "scanstring m [] = None"
| "scanstring Plain (c # r) =
     (if c = dq then Some ([], r)
      else if c = bs then scanstring Escape r
      else if (of_char c :: nat) < 32 then None
      else cons_result c (scanstring Plain r))"
| "scanstring Escape (c # r) =
     (if c = CHR ''u'' then scanstring (Hex []) r
      else (case unescape c of None \<Rightarrow> None | Some x \<Rightarrow> cons_result x (scanstring Plain r)))"
| "scanstring (Hex ds) (c # r) =
     (case hex_val c of
        None \<Rightarrow> None
      | Some d \<Rightarrow>
          if length ds < 3 then scanstring (Hex (ds @ [d])) r
          else (let n = foldl (\<lambda>a d. 16 * a + d) 0 (ds @ [d])
                in if n < 256 then cons_result (char_of n) (scanstring Plain r) else None))"

text \<open>
  Integers are written in decimal, as \<^verbatim>\<open>int.__repr__\<close> does. A number is read as an
  optional minus sign and the digits that follow; more than one digit after a leading zero
  is an error, and what a fraction or an exponent would start is outside the model.
\<close>

definition digit_char :: "nat \<Rightarrow> char" where
  "digit_char n = ''0123456789'' ! n"

fun dump_nat :: "nat \<Rightarrow> string" where
  "dump_nat n = (if n < 10 then [digit_char n] else dump_nat (n div 10) @ [digit_char (n mod 10)])"

definition dump_int :: "int \<Rightarrow> string" where
  "dump_int i = (if i < 0 then CHR ''-'' # dump_nat (nat (- i)) else dump_nat (nat i))"

definition is_digit :: "char \<Rightarrow> bool" where
  "is_digit c = (48 \<le> (of_char c :: nat) \<and> (of_char c :: nat) \<le> 57)"

definition parse_nat :: "string \<Rightarrow> nat" where
  "parse_nat ds = foldl (\<lambda>a c. 10 * a + (of_char c - 48)) 0 ds"

definition parse_number :: "string \<Rightarrow> (pyval \<times> string) option" where
  "parse_number s =
     (let neg = (s \<noteq> [] \<and> hd s = CHR ''-'');
          t = (if neg then tl s else s);
          ds = takeWhile is_digit t;
          rest = dropWhile is_digit t
      in if ds = [] then None
         else if hd ds = CHR ''0'' \<and> tl ds \<noteq> [] then None
         else if rest \<noteq> [] \<and> hd rest \<in> set ''.eE'' then None
         else Some (VInt (if neg then - int (parse_nat ds) else int (parse_nat ds)), rest))"

definition dump_scalar :: "pyval \<Rightarrow> string" where
  "dump_scalar v = (case v of VNone \<Rightarrow> ''null'' | VInt i \<Rightarrow> dump_int i | VStr s \<Rightarrow> dump_str s)"

definition parse_scalar :: "string \<Rightarrow> (pyval \<times> string) option" where
  "parse_scalar s =
     (case s of
        [] \<Rightarrow> None
      | c # r \<Rightarrow>
          if c = dq then
            (case scanstring Plain r of None \<Rightarrow> None | Some (x, rest) \<Rightarrow> Some (VStr x, rest))
          else if c = CHR ''n'' then
            (if take 3 r = ''ull'' then Some (VNone, drop 3 r) else None)
          else parse_number s)"

text \<open>
  With \<^verbatim>\<open>indent=4\<close> every item of a non-empty container starts on a line of its own,
  indented by four spaces for each level, items are separated by a comma, a key and its
  value by a colon and a space, and the closing bracket stands on its own line. Empty
  containers are written \<^verbatim>\<open>[]\<close> and \<^verbatim>\<open>{}\<close>.
\<close>

definition nl_indent :: "nat \<Rightarrow> string" where
  "nl_indent level = CHR 0x0A # replicate (4 * level) CHR '' ''"

fun join :: "string \<Rightarrow> string list \<Rightarrow> string" where
  "join sep [] = []"
| "join sep [x] = x"
| "join sep (x # y # ys) = x @ sep @ join sep (y # ys)"

definition dump_member :: "string \<times> pyval \<Rightarrow> string" where
  "dump_member m = dump_str (fst m) @ '': '' @ dump_scalar (snd m)"

definition dump_dict :: "dict \<Rightarrow> string" where
  "dump_dict d =
     (if d = [] then ''{}''
      else ''{'' @ nl_indent 2 @ join ('','' @ nl_indent 2) (map dump_member d) @ nl_indent 1 @ ''}'')"

definition json_dumps :: "dict list \<Rightarrow> string" where
  "json_dumps us =
     (if us = [] then ''[]''
      else ''['' @ nl_indent 1 @ join ('','' @ nl_indent 1) (map dump_dict us) @ nl_indent 0 @ '']'')"

text \<open>
  The decoder skips blanks, tabs and line ends between tokens. \<open>parse_members\<close> starts at
  the opening quote of a key and reads members up to the closing brace; a key read twice
  keeps its place and takes the later value, as a Python dictionary does.
  \<open>parse_elements\<close> starts at the opening brace of an object and reads objects up to the
  closing bracket. After the array only white space may follow.
\<close>

definition is_ws :: "char \<Rightarrow> bool" where
  "is_ws c = (c = CHR '' '' \<or> c = CHR 0x09 \<or> c = CHR 0x0A \<or> c = CHR 0x0D)"

definition skip_ws :: "string \<Rightarrow> string" where
  "skip_ws s = dropWhile is_ws s"

function parse_members :: "dict \<Rightarrow> string \<Rightarrow> (dict \<times> string) option" where
  "parse_members acc s =
     (case s of
        [] \<Rightarrow> None
      | c # r \<Rightarrow>
          if c \<noteq> dq then None
          else (case scanstring Plain r of
                  None \<Rightarrow> None
                | Some (k, r1) \<Rightarrow>
                    (case skip_ws r1 of
                       [] \<Rightarrow> None
                     | c1 # r2 \<Rightarrow>
                         if c1 \<noteq> CHR '':'' then None
                         else (case parse_scalar (skip_ws r2) of
                                 None \<Rightarrow> None
                               | Some (v, r3) \<Rightarrow>
                                   (case skip_ws r3 of
                                      [] \<Rightarrow> None
                                    | c2 # r4 \<Rightarrow>
                                        if c2 = CHR '','' then parse_members (setitem k v acc) (skip_ws r4)
                                        else if c2 = CHR ''}'' then Some (setitem k v acc, r4)
                                        else None)))))"
  by pat_completeness auto
termination
proof (relation "measure (\<lambda>(acc, s). length s)", goal_cases)
  case 1
  then show ?case by simp
next
  case (2 acc s c r x2 k r1 c1 r2 x2a v r3 c2 r4)
  have scan: "length out < length t" if "scanstring m t = Some (x, out)" for m t x out
    using that
  proof (induction m t arbitrary: x rule: scanstring.induct)
    case (1 m)
    then show ?case by simp
  next
    case (2 c r)
    then show ?case
      by (auto simp: cons_result_def split: if_splits option.splits; meson less_SucI)
  next
    case (3 c r)
    then show ?case
      by (auto simp: cons_result_def split: if_splits option.splits; meson less_SucI)
  next
    case (4 ds c r)
    then show ?case
      by (auto simp: cons_result_def Let_def split: if_splits option.splits; meson less_SucI)
  qed
  have ws: "length (skip_ws t) \<le> length t" for t
    by (simp add: skip_ws_def length_dropWhile_le)
  have number: "length out \<le> length t" if "parse_number t = Some (x, out)" for t x out
    using that
    by (auto simp: parse_number_def Let_def split: if_splits
        intro: order_trans[OF length_dropWhile_le])
  have scalar: "length out \<le> length t" if "parse_scalar t = Some (x, out)" for t x out
    using that
    by (auto simp: parse_scalar_def split: list.splits if_splits option.splits
        dest: scan number)
  have "length (skip_ws r4) \<le> length r4" by (rule ws)
  also have "length r4 < length (skip_ws r3)" using 2 by simp
  also have "\<dots> \<le> length r3" by (rule ws)
  also have "\<dots> \<le> length (skip_ws r2)" using 2 scalar by metis
  also have "\<dots> \<le> length r2" by (rule ws)
  also have "\<dots> < length (skip_ws r1)" using 2 by simp
  also have "\<dots> \<le> length r1" by (rule ws)
  also have "\<dots> < length r" using 2 scan by metis
  also have "\<dots> < length s" using 2 by simp
  finally show ?case by simp
qed

definition parse_object :: "string \<Rightarrow> (dict \<times> string) option" where
  "parse_object s =
     (case skip_ws s of
        [] \<Rightarrow> None
      | c # r \<Rightarrow> if c = CHR ''}'' then Some ([], r) else parse_members [] (c # r))"

function parse_elements :: "dict list \<Rightarrow> string \<Rightarrow> (dict list \<times> string) option" where
  "parse_elements acc s =
     (case s of
        [] \<Rightarrow> None
      | c # r \<Rightarrow>
          if c \<noteq> CHR ''{'' then None
          else (case parse_object r of
                  None \<Rightarrow> None
                | Some (d, r1) \<Rightarrow>
                    (case skip_ws r1 of
                       [] \<Rightarrow> None
                     | c1 # r2 \<Rightarrow>
                         if c1 = CHR '','' then parse_elements (acc @ [d]) (skip_ws r2)
                         else if c1 = CHR '']'' then Some (acc @ [d], r2)
                         else None)))"
  by pat_completeness auto
termination
proof (relation "measure (\<lambda>(acc, s). length s)", goal_cases)
  case 1
  then show ?case by simp
next
  case (2 acc s c r x2 d r1 c1 r2)
  have scan: "length out < length t" if "scanstring m t = Some (x, out)" for m t x out
    using that
  proof (induction m t arbitrary: x rule: scanstring.induct)
    case (1 m)
    then show ?case by simp
  next
    case (2 c r)
    then show ?case
      by (auto simp: cons_result_def split: if_splits option.splits; meson less_SucI)
  next
    case (3 c r)
    then show ?case
      by (auto simp: cons_result_def split: if_splits option.splits; meson less_SucI)
  next
    case (4 ds c r)
    then show ?case
      by (auto simp: cons_result_def Let_def split: if_splits option.splits; meson less_SucI)
  qed
  have ws: "length (skip_ws t) \<le> length t" for t
    by (simp add: skip_ws_def length_dropWhile_le)
  have number: "length out \<le> length t" if "parse_number t = Some (x, out)" for t x out
    using that
    by (auto simp: parse_number_def Let_def split: if_splits
        intro: order_trans[OF length_dropWhile_le])
  have scalar: "length out \<le> length t" if "parse_scalar t = Some (x, out)" for t x out
    using that
    by (auto simp: parse_scalar_def split: list.splits if_splits option.splits
        dest: scan number)
  have members: "length out < length t" if "parse_members a t = Some (x, out)" for a t x out
    using that
  proof (induction a t rule: parse_members.induct)
    case (1 a t)
    from 1(2) obtain c r k r1 c1 r2 v r3 c2 r4 where t: "t = c # r" "c = dq"
      and k: "scanstring Plain r = Some (k, r1)" and c1: "skip_ws r1 = c1 # r2" "c1 = CHR '':''"
      and v: "parse_scalar (skip_ws r2) = Some (v, r3)" and c2: "skip_ws r3 = c2 # r4"
      by (subst (asm) parse_members.simps)
         (auto split: list.splits if_splits option.splits prod.splits)
    have step: "length r4 < length t"
    proof -
      have "length r4 < length (skip_ws r3)" using c2 by simp
      also have "\<dots> \<le> length r3" by (rule ws)
      also have "\<dots> \<le> length (skip_ws r2)" using v by (rule scalar)
      also have "\<dots> \<le> length r2" by (rule ws)
      also have "\<dots> < length (skip_ws r1)" using c1 by simp
      also have "\<dots> \<le> length r1" by (rule ws)
      also have "\<dots> < length r" using k by (rule scan)
      also have "\<dots> < length t" using t by simp
      finally show ?thesis .
    qed
    show ?case
    proof (cases "c2 = CHR '',''")
      case True
      with 1(2) t k c1 v c2 have rec: "parse_members (setitem k v a) (skip_ws r4) = Some (x, out)"
        by (subst (asm) parse_members.simps) simp
      have "length out < length (skip_ws r4)"
        by (rule 1(1)[OF t(1) _ k refl c1(1) _ v refl c2 True rec]) (simp_all add: t c1)
      also have "\<dots> \<le> length r4" by (rule ws)
      finally show ?thesis using step by simp
    next
      case False
      with 1(2) t k c1 v c2 have "out = r4"
        by (subst (asm) parse_members.simps) (simp split: if_splits)
      with step show ?thesis by simp
    qed
  qed
  have object: "length out \<le> length t" if "parse_object t = Some (x, out)" for t x out
  proof -
    from that obtain c' r' where c': "skip_ws t = c' # r'"
      by (cases "skip_ws t") (auto simp: parse_object_def)
    have "length out \<le> length (skip_ws t)"
    proof (cases "c' = CHR ''}''")
      case True
      with that c' show ?thesis by (simp add: parse_object_def)
    next
      case False
      with that c' have "parse_members [] (c' # r') = Some (x, out)"
        by (simp add: parse_object_def)
      from members[OF this] c' show ?thesis by simp
    qed
    also have "\<dots> \<le> length t" by (rule ws)
    finally show ?thesis .
  qed
  have "length (skip_ws r2) \<le> length r2" by (rule ws)
  also have "length r2 < length (skip_ws r1)" using 2 by simp
  also have "\<dots> \<le> length r1" by (rule ws)
  also have "\<dots> \<le> length r" using 2 object by metis
  also have "\<dots> < length s" using 2 by simp
  finally show ?case by simp
qed

text \<open>\<^verbatim>\<open>json.load\<close> on the text of the file; every failure is a \<^verbatim>\<open>JSONDecodeError\<close>.\<close>

definition json_loads :: "string \<Rightarrow> error + dict list" where
  "json_loads s =
     (case skip_ws s of
        [] \<Rightarrow> Inl JSONDecodeError
      | c # r \<Rightarrow>
          if c \<noteq> CHR ''['' then Inl JSONDecodeError
          else (case (case skip_ws r of
                        [] \<Rightarrow> None
                      | c1 # r1 \<Rightarrow> if c1 = CHR '']'' then Some ([], r1)
                                   else parse_elements [] (c1 # r1)) of
                  None \<Rightarrow> Inl JSONDecodeError
                | Some (us, rest) \<Rightarrow> if skip_ws rest = [] then Inr us else Inl JSONDecodeError))"


section \<open>Properties of collections, and sample data\<close>

text \<open>
  The data model asks every record for an \<^verbatim>\<open>id\<close> and forbids two records with the same
  one. Both are predicates on the collection; the code checks neither when it loads a file.
\<close>

definition has_id :: "dict \<Rightarrow> bool" where
  "has_id u = (map_of u ''id'' \<noteq> None)"

definition ids_unique :: "dict list \<Rightarrow> bool" where
  "ids_unique us = distinct (map (\<lambda>u. map_of u ''id'') us)"

text \<open>
  What \<open>search_users\<close> compares: the lower-cased value of a field. A record is typed when
  its name and email are strings and it has an age, as the data model requires; a search
  criterion for name or email is a string or omitted.
\<close>

definition lower_field :: "string \<Rightarrow> dict \<Rightarrow> error + string" where
  "lower_field key u = (case map_of u key of None \<Rightarrow> Inl KeyError | Some v \<Rightarrow> str_lower v)"

definition typed_user :: "dict \<Rightarrow> bool" where
  "typed_user u =
     ((case map_of u ''name'' of Some (VStr a) \<Rightarrow> True | _ \<Rightarrow> False)
    \<and> (case map_of u ''email'' of Some (VStr a) \<Rightarrow> True | _ \<Rightarrow> False)
    \<and> map_of u ''age'' \<noteq> None)"

fun str_or_none :: "pyval \<Rightarrow> bool" where
  "str_or_none (VInt i) = False"
| "str_or_none v = True"

text \<open>
  The specification's reading of the email pattern, in its own words: one or more
  characters of the first class, an \<^verbatim>\<open>@\<close>, one or more of the second class, a dot, one or
  more of the third class, and nothing before or after.
\<close>

definition local_chars :: "cls_item list" where
  "local_chars = alnum @ [Single CHR ''_'', Single CHR ''.'', Single CHR ''+'', Single CHR ''-'']"

definition domain_chars :: "cls_item list" where
  "domain_chars = alnum @ [Single CHR ''-'']"

definition tld_chars :: "cls_item list" where
  "tld_chars = alnum @ [Single CHR ''-'', Single CHR ''.'']"

definition email_shape :: "string \<Rightarrow> bool" where
  "email_shape s =
     (\<exists>l d t. s = l @ CHR ''@'' # d @ CHR ''.'' # t
        \<and> l \<noteq> [] \<and> list_all (in_cls local_chars) l
        \<and> d \<noteq> [] \<and> list_all (in_cls domain_chars) d
        \<and> t \<noteq> [] \<and> list_all (in_cls tld_chars) t)"

text \<open>
  Sample records and stores. In the samples of type \<open>dict list state\<close> a file holds the
  list of records itself, so that \<open>id\<close> serialises; \<open>text_store\<close> is for JSON text.
\<close>

definition bob :: dict where
  "bob = [(''id'', VStr ''1''), (''name'', VStr ''Bob''), (''email'', VStr ''bob@example.com''),
          (''age'', VInt 30)]"

definition alice :: dict where
  "alice = [(''id'', VStr ''2''), (''name'', VStr ''Alice''), (''email'', VStr ''al@ex.org''),
            (''age'', VInt 25)]"

definition anon :: dict where
  "anon = [(''id'', VStr []), (''name'', VStr ''Eve''), (''email'', VStr ''eve@ex.org''),
           (''age'', VInt 41)]"

definition mallory :: dict where
  "mallory = [(''id'', VStr ''3''), (''name'', VStr ''Mal''), (''email'', VStr ''not-an-email''),
              (''age'', VInt 50)]"

definition bob_twin :: dict where
  "bob_twin = [(''id'', VStr ''1''), (''name'', VStr ''Rob''), (''email'', VStr ''rob@ex.org''),
               (''age'', VInt 31)]"

definition nemo :: dict where
  "nemo = [(''name'', VStr ''Nemo''), (''email'', VStr ''nemo@ex.org''), (''age'', VInt 7)]"

definition bob_bad :: dict where
  "bob_bad = [(''id'', VStr ''1''), (''name'', VStr ''Bob''), (''email'', VStr ''not-an-email''),
              (''age'', VInt 30)]"

definition store_of :: "dict list \<Rightarrow> dict list state" where
  "store_of us = \<lparr>filename = ''users.json'', users = us,
                   files = [''users.json'' \<mapsto> us], stdout = []\<rparr>"

definition store_empty :: "dict list state" where
  "store_empty = \<lparr>filename = ''users.json'', users = [], files = Map.empty, stdout = []\<rparr>"

definition store_bob :: "dict list state" where
  "store_bob = \<lparr>filename = ''users.json'', users = [bob],
                 files = [''users.json'' \<mapsto> [bob]], stdout = []\<rparr>"

definition store_two :: "dict list state" where
  "store_two = \<lparr>filename = ''users.json'', users = [bob, alice],
                 files = [''users.json'' \<mapsto> [bob, alice]], stdout = []\<rparr>"

definition text_store :: "string state" where
  "text_store = \<lparr>filename = ''users.json'', users = [bob, alice], files = Map.empty, stdout = []\<rparr>"

lemmas sample_defs = bob_def alice_def anon_def mallory_def bob_twin_def nemo_def bob_bad_def store_of_def
  store_empty_def store_bob_def store_two_def

lemmas regex_defs = re_match_def email_regex_def alnum_def in_cls_def


section \<open>Dictionaries and the loops over the collection\<close>

text \<open>
  The loops of \<open>read_user\<close>, \<open>update_user\<close> and \<open>delete_user\<close> stop at the first record
  with the id; the lemmas describe them by the split of the collection at that record.
  \<open>delete_user\<close> removes by equality of dictionaries, which finds that same record.
\<close>

lemma map_of_setitem: "map_of (setitem k v d) = (map_of d)(k \<mapsto> v)"
  by (induction d) (auto simp: fun_eq_iff)

lemma map_of_dict_update_other:
  "k \<notin> fst ` set other \<Longrightarrow> map_of (dict_update d other) k = map_of d k"
  by (induction d other rule: dict_update.induct) (auto simp: map_of_setitem)

lemma map_of_dict_update:
  "distinct (map fst other) \<Longrightarrow>
   map_of (dict_update d other) k = (case map_of other k of None \<Rightarrow> map_of d k | Some v \<Rightarrow> Some v)"
proof (induction d other rule: dict_update.induct)
  case (1 d)
  then show ?case by simp
next
  case (2 d k' v other)
  then have notin: "k' \<notin> fst ` set other" and dist: "distinct (map fst other)"
    by auto
  show ?case
  proof (cases "k = k'")
    case True
    with notin have "map_of other k = None"
      by (simp add: map_of_eq_None_iff)
    with True 2(1)[OF dist] show ?thesis
      by (simp add: map_of_setitem)
  next
    case False
    with 2(1)[OF dist] show ?thesis
      by (simp add: map_of_setitem split: option.splits)
  qed
qed

lemma read_loop_total: "list_all has_id us \<Longrightarrow> \<exists>r. read_loop us uid = Inr r"
  by (induction us) (auto simp: has_id_def getitem_def split: option.splits)

lemma read_loop_no_match:
  "list_all has_id us \<Longrightarrow> \<forall>u \<in> set us. map_of u ''id'' \<noteq> Some uid \<Longrightarrow> read_loop us uid = Inr RNone"
  by (induction us) (auto simp: has_id_def getitem_def split: option.splits)

lemma read_loop_match:
  "list_all has_id pre \<Longrightarrow> \<forall>x \<in> set pre. map_of x ''id'' \<noteq> Some uid \<Longrightarrow> map_of u ''id'' = Some uid
    \<Longrightarrow> read_loop (pre @ u # post) uid = Inr (RUser u)"
  by (induction pre) (auto simp: has_id_def getitem_def split: option.splits)

lemma read_loop_RUser:
  "read_loop us uid = Inr (RUser u) \<Longrightarrow> u \<in> set us \<and> map_of u ''id'' = Some uid"
  by (induction us) (auto simp: getitem_def split: option.splits if_splits)

lemma read_loop_not_RAll: "read_loop us uid \<noteq> Inr (RAll xs)"
  by (induction us) (auto simp: getitem_def split: option.splits)

lemma read_loop_RNone:
  "read_loop us uid = Inr RNone \<Longrightarrow> list_all has_id us \<and> (\<forall>u \<in> set us. map_of u ''id'' \<noteq> Some uid)"
  by (induction us) (auto simp: getitem_def has_id_def split: option.splits if_splits)

lemma update_loop_no_match:
  "list_all has_id rem \<Longrightarrow> \<forall>u \<in> set rem. map_of u ''id'' \<noteq> Some uid
    \<Longrightarrow> update_loop dump s pre rem uid upd = (Inr False, s)"
  by (induction rem arbitrary: pre) (auto simp: has_id_def getitem_def split: option.splits)

lemma update_loop_match:
  assumes "list_all has_id mid" "\<forall>x \<in> set mid. map_of x ''id'' \<noteq> Some uid"
    and "map_of u ''id'' = Some uid"
  shows "update_loop dump s pre (mid @ u # post) uid upd =
     (case (case map_of upd ''email'' of None \<Rightarrow> Inr True | Some email \<Rightarrow> validate_email email) of
        Inl e \<Rightarrow> (Inl e, s)
      | Inr valid \<Rightarrow>
          if \<not> valid then (Inr False, py_print ''Invalid email format.'' s)
          else (Inr True, save_users dump (s\<lparr>users := pre @ mid @ dict_update u upd # post\<rparr>)))"
  using assms
proof (induction mid arbitrary: pre)
  case Nil
  then show ?case by (simp add: getitem_def split: sum.splits)
next
  case (Cons a mid)
  from Cons.prems obtain y where y: "getitem a ''id'' = Inr y" "y \<noteq> uid"
    by (auto simp: has_id_def getitem_def)
  from Cons.prems have "update_loop dump s (pre @ [a]) (mid @ u # post) uid upd =
     (case (case map_of upd ''email'' of None \<Rightarrow> Inr True | Some email \<Rightarrow> validate_email email) of
        Inl e \<Rightarrow> (Inl e, s)
      | Inr valid \<Rightarrow>
          if \<not> valid then (Inr False, py_print ''Invalid email format.'' s)
          else (Inr True, save_users dump (s\<lparr>users := (pre @ [a]) @ mid @ dict_update u upd # post\<rparr>)))"
    by (intro Cons.IH) auto
  with y show ?case by (simp split: sum.splits)
qed

lemma update_loop_invalid:
  "list_all has_id rem \<Longrightarrow> map_of upd ''email'' = Some email \<Longrightarrow> validate_email email = Inr False
    \<Longrightarrow> update_loop dump s pre rem uid upd = (Inr False, s)
      \<or> update_loop dump s pre rem uid upd = (Inr False, py_print ''Invalid email format.'' s)"
  by (induction rem arbitrary: pre) (auto simp: has_id_def getitem_def split: option.splits)

lemma update_loop_invalid_match:
  assumes "list_all has_id us" and "\<exists>u \<in> set us. map_of u ''id'' = Some uid"
    and "map_of upd ''email'' = Some email" and "validate_email email = Inr False"
  shows "update_loop dump s pre us uid upd = (Inr False, py_print ''Invalid email format.'' s)"
proof -
  from assms(2) obtain mid u post where sp: "us = mid @ u # post" "map_of u ''id'' = Some uid"
    "\<forall>x \<in> set mid. map_of x ''id'' \<noteq> Some uid"
    using split_list_first_prop[of us "\<lambda>u. map_of u ''id'' = Some uid"] by blast
  from assms(1) sp(1) have "list_all has_id mid" by simp
  from update_loop_match[OF this sp(3) sp(2), of dump s pre post upd] sp(1) assms(3,4)
  show ?thesis by simp
qed

lemma update_loop_invalid_any:
  "map_of upd ''email'' = Some email \<Longrightarrow> validate_email email = Inr False
    \<Longrightarrow> (\<exists>e. update_loop dump s pre rem uid upd = (Inl e, s))
      \<or> update_loop dump s pre rem uid upd = (Inr False, s)
      \<or> update_loop dump s pre rem uid upd = (Inr False, py_print ''Invalid email format.'' s)"
  by (induction rem arbitrary: pre) (auto simp: getitem_def split: option.splits)

lemma create_user_invalid_any:
  assumes "getitem user ''email'' = Inr email" and "validate_email email = Inr False"
  shows "(\<exists>e. create_user dump s user = (Inl e, s))
      \<or> (\<exists>msg. create_user dump s user = (Inr False, py_print msg s))"
  using assms by (auto simp: create_user_def split: sum.splits)

lemma dict_eq_iff: "dict_eq a b = (map_of a = map_of b)"
proof
  assume eq: "dict_eq a b"
  show "map_of a = map_of b"
  proof
    fix k
    show "map_of a k = map_of b k"
    proof (cases "k \<in> fst ` set a \<union> fst ` set b")
      case True
      with eq show ?thesis
        by (auto simp: dict_eq_def list_all_iff)
    next
      case False
      then have "map_of a k = None" "map_of b k = None"
        by (simp_all add: map_of_eq_None_iff)
      then show ?thesis by simp
    qed
  qed
next
  assume "map_of a = map_of b"
  then show "dict_eq a b"
    by (simp add: dict_eq_def list_all_iff)
qed

lemma list_remove_first:
  "\<forall>x \<in> set pre. map_of x ''id'' \<noteq> map_of u ''id'' \<Longrightarrow> list_remove u (pre @ u # post) = Inr (pre @ post)"
  by (induction pre) (auto simp: dict_eq_iff)

lemma delete_loop_no_match:
  "list_all has_id rem \<Longrightarrow> \<forall>u \<in> set rem. map_of u ''id'' \<noteq> Some uid
    \<Longrightarrow> delete_loop dump s rem uid = (Inr False, s)"
  by (induction rem) (auto simp: has_id_def getitem_def split: option.splits)

lemma delete_loop_match:
  "list_all has_id mid \<Longrightarrow> \<forall>x \<in> set mid. map_of x ''id'' \<noteq> Some uid \<Longrightarrow> map_of u ''id'' = Some uid
    \<Longrightarrow> delete_loop dump s (mid @ u # post) uid =
        (case list_remove u (users s) of
           Inl e \<Rightarrow> (Inl e, s)
         | Inr us \<Rightarrow> (Inr True, save_users dump (s\<lparr>users := us\<rparr>)))"
  by (induction mid) (auto simp: has_id_def getitem_def split: option.splits)

lemma delete_loop_True:
  "delete_loop dump s rem uid = (Inr True, s') \<Longrightarrow>
   \<exists>mid u post. rem = mid @ u # post \<and> list_all has_id mid
      \<and> (\<forall>x \<in> set mid. map_of x ''id'' \<noteq> Some uid) \<and> map_of u ''id'' = Some uid"
proof (induction rem)
  case Nil
  then show ?case by simp
next
  case (Cons a rem)
  show ?case
  proof (cases "map_of a ''id'' = Some uid")
    case True
    then have "a # rem = [] @ a # rem \<and> list_all has_id []
      \<and> (\<forall>x \<in> set []. map_of x ''id'' \<noteq> Some uid) \<and> map_of a ''id'' = Some uid"
      by simp
    then show ?thesis by blast
  next
    case False
    with Cons.prems have h: "has_id a" and d: "delete_loop dump s rem uid = (Inr True, s')"
      by (auto simp: getitem_def has_id_def split: option.splits if_splits)
    from Cons.IH[OF d] obtain mid u post where m: "rem = mid @ u # post" "list_all has_id mid"
      "\<forall>x \<in> set mid. map_of x ''id'' \<noteq> Some uid" "map_of u ''id'' = Some uid"
      by blast
    with h False have "a # rem = (a # mid) @ u # post \<and> list_all has_id (a # mid)
      \<and> (\<forall>x \<in> set (a # mid). map_of x ''id'' \<noteq> Some uid) \<and> map_of u ''id'' = Some uid"
      by simp
    then show ?thesis by blast
  qed
qed

lemma delete_user_True:
  assumes "delete_user dump s uid = (Inr True, s')"
  shows "\<exists>pre u post. users s = pre @ u # post \<and> list_all has_id pre
      \<and> (\<forall>x \<in> set pre. map_of x ''id'' \<noteq> Some uid) \<and> map_of u ''id'' = Some uid
      \<and> s' = save_users dump (s\<lparr>users := pre @ post\<rparr>)"
proof -
  from assms have d: "delete_loop dump s (users s) uid = (Inr True, s')"
    by (simp add: delete_user_def)
  from delete_loop_True[OF d] obtain pre u post where m: "users s = pre @ u # post"
    "list_all has_id pre" "\<forall>x \<in> set pre. map_of x ''id'' \<noteq> Some uid" "map_of u ''id'' = Some uid"
    by blast
  then have "list_remove u (users s) = Inr (pre @ post)"
    by (simp add: list_remove_first)
  with d m have "s' = save_users dump (s\<lparr>users := pre @ post\<rparr>)"
    using delete_loop_match[of pre uid u dump s post] by simp
  with m show ?thesis by blast
qed

lemma update_loop_True:
  "update_loop dump s pre rem uid upd = (Inr True, s') \<Longrightarrow>
   \<exists>mid u post. rem = mid @ u # post
      \<and> s' = save_users dump (s\<lparr>users := pre @ mid @ dict_update u upd # post\<rparr>)"
proof (induction rem arbitrary: pre)
  case Nil
  then show ?case by simp
next
  case (Cons a rem)
  show ?case
  proof (cases "getitem a ''id'' = Inr uid")
    case True
    with Cons.prems have "s' = save_users dump (s\<lparr>users := pre @ [] @ dict_update a upd # rem\<rparr>)"
      by (auto simp: py_print_def split: sum.splits option.splits if_splits)
    then show ?thesis by blast
  next
    case False
    with Cons.prems have "update_loop dump s (pre @ [a]) rem uid upd = (Inr True, s')"
      by (auto split: sum.splits if_splits)
    from Cons.IH[OF this] obtain mid u post where "rem = mid @ u # post"
      "s' = save_users dump (s\<lparr>users := (pre @ [a]) @ mid @ dict_update u upd # post\<rparr>)"
      by blast
    then have "a # rem = (a # mid) @ u # post
      \<and> s' = save_users dump (s\<lparr>users := pre @ (a # mid) @ dict_update u upd # post\<rparr>)"
      by simp
    then show ?thesis by blast
  qed
qed

lemma create_user_keeps_ids:
  assumes "list_all has_id (users s)" and "ids_unique (users s)"
    and "create_user dump s user = (Inr True, s')"
  shows "list_all has_id (users s') \<and> ids_unique (users s')"
proof -
  from assms(3) obtain uid found where u: "map_of user ''id'' = Some uid"
    and r: "read_user s uid = Inr found" "\<not> result_truthy found"
    and s': "users s' = users s @ [user]"
    by (auto simp: create_user_def getitem_def save_users_def py_print_def
        split: option.splits sum.splits if_splits)
  have "Some uid \<notin> set (map (\<lambda>u. map_of u ''id'') (users s))"
  proof (cases "truthy uid")
    case True
    with r(1) have l: "read_loop (users s) uid = Inr found"
      by (simp add: read_user_def)
    with r(2) have "found = RNone"
      using read_loop_RUser[of "users s" uid] read_loop_not_RAll[of "users s" uid]
      by (cases found) auto
    with l show ?thesis
      using read_loop_RNone[of "users s" uid] by auto
  next
    case False
    with r show ?thesis
      by (auto simp: read_user_def)
  qed
  with assms(1,2) u s' show ?thesis
    by (simp add: ids_unique_def has_id_def)
qed

lemma delete_user_keeps_ids:
  assumes "list_all has_id (users s)" and "ids_unique (users s)"
    and "delete_user dump s uid = (Inr True, s')"
  shows "list_all has_id (users s') \<and> ids_unique (users s')"
proof -
  from delete_user_True[OF assms(3)] obtain pre u post where "users s = pre @ u # post"
    "s' = save_users dump (s\<lparr>users := pre @ post\<rparr>)"
    by blast
  with assms(1,2) show ?thesis
    by (auto simp: ids_unique_def save_users_def)
qed

lemma update_user_keeps_ids:
  assumes "list_all has_id (users s)" and "ids_unique (users s)"
    and "''id'' \<notin> fst ` set updated_user"
    and "update_user dump s uid updated_user = (Inr True, s')"
  shows "list_all has_id (users s') \<and> ids_unique (users s')"
proof -
  from assms(4) obtain mid u post where m: "users s = mid @ u # post"
    "s' = save_users dump (s\<lparr>users := [] @ mid @ dict_update u updated_user # post\<rparr>)"
    using update_loop_True[of dump s "[]" "users s" uid updated_user s']
    by (auto simp: update_user_def)
  from assms(3) have "map_of (dict_update u updated_user) ''id'' = map_of u ''id''"
    by (rule map_of_dict_update_other)
  with assms(1,2) m show ?thesis
    by (simp add: ids_unique_def has_id_def save_users_def)
qed

lemma create_user_checks:
  assumes "list_all has_id (users s)" and "getitem user ''id'' = Inr uid" and "truthy uid"
    and "getitem user ''email'' = Inr email" and "validate_email email = Inr valid"
  shows "create_user dump s user =
     (if \<exists>u \<in> set (users s). map_of u ''id'' = Some uid
      then (Inr False, py_print ''User with this ID already exists.'' s)
      else if \<not> valid then (Inr False, py_print ''Invalid email format.'' s)
      else (Inr True, save_users dump (s\<lparr>users := users s @ [user]\<rparr>)))"
proof (cases "\<exists>u \<in> set (users s). map_of u ''id'' = Some uid")
  case True
  from assms(1) obtain r where r: "read_loop (users s) uid = Inr r"
    using read_loop_total by blast
  with True have "\<exists>u. r = RUser u \<and> map_of u ''id'' = Some uid"
    using read_loop_RNone[of "users s" uid] read_loop_not_RAll[of "users s" uid]
      read_loop_RUser[of "users s" uid]
    by (cases r) auto
  then have "result_truthy r" by auto
  with True r assms show ?thesis
    by (simp add: create_user_def read_user_def)
next
  case False
  with assms(1) have "read_loop (users s) uid = Inr RNone"
    by (simp add: read_loop_no_match)
  with False assms show ?thesis
    by (simp add: create_user_def read_user_def)
qed

lemma search_users_age_zero: "search_users s name email (VInt 0) = search_users s name email VNone"
  by (simp add: search_users_def cong: sum.case_cong if_cong)


section \<open>What the search filters by\<close>

text \<open>
  On typed records each comprehension of \<open>search_users\<close> is a \<open>filter\<close>, so the result
  keeps the order of the collection and holds the records that pass every test applied.
\<close>

lemma filter_lower_filter:
  assumes "list_all (\<lambda>u. case map_of u key of Some (VStr a) \<Rightarrow> True | _ \<Rightarrow> False) us"
  shows "filter_lower key us (VStr w) = Inr (filter (\<lambda>u. lower_field key u = Inr (map lower_char w)) us)"
  using assms
  by (induction us) (auto simp: getitem_def lower_field_def split: option.splits pyval.splits)

lemma filter_age_filter:
  "list_all (\<lambda>u. map_of u ''age'' \<noteq> None) us
    \<Longrightarrow> filter_age us age = Inr (filter (\<lambda>u. map_of u ''age'' = Some age) us)"
  by (induction us) (auto simp: getitem_def split: option.splits)

lemma search_users_filter:
  assumes "list_all typed_user (users s)" and "str_or_none name" and "str_or_none email"
  shows "search_users s name email age =
     Inr (filter (\<lambda>u. (truthy name \<longrightarrow> lower_field ''name'' u = str_lower name)
                    \<and> (truthy email \<longrightarrow> lower_field ''email'' u = str_lower email)
                    \<and> (truthy age \<longrightarrow> map_of u ''age'' = Some age)) (users s))"
proof -
  let ?N = "\<lambda>u. truthy name \<longrightarrow> lower_field ''name'' u = str_lower name"
  let ?E = "\<lambda>u. truthy email \<longrightarrow> lower_field ''email'' u = str_lower email"
  let ?A = "\<lambda>u. truthy age \<longrightarrow> map_of u ''age'' = Some age"
  have typed: "list_all (\<lambda>u. case map_of u k of Some (VStr a) \<Rightarrow> True | _ \<Rightarrow> False) (filter P (users s))"
    if "k = ''name'' \<or> k = ''email''" for k P
    using assms(1) that by (auto simp: list_all_iff typed_user_def)
  have aged: "list_all (\<lambda>u. map_of u ''age'' \<noteq> None) (filter P (users s))" for P
    using assms(1) by (auto simp: list_all_iff typed_user_def)
  have 1: "(if truthy name then filter_lower ''name'' (users s) name else Inr (users s)) =
      Inr (filter ?N (users s))"
  proof (cases name)
    case (VStr w)
    then show ?thesis
      using filter_lower_filter[of "''name''" "filter (\<lambda>u. True) (users s)" w] typed[of "''name''" "\<lambda>u. True"]
      by simp
  qed (use assms(2) in simp_all)
  have 2: "(if truthy email then filter_lower ''email'' (filter ?N (users s)) email
            else Inr (filter ?N (users s))) = Inr (filter ?E (filter ?N (users s)))"
  proof (cases email)
    case (VStr w)
    then show ?thesis
      using filter_lower_filter[of "''email''" "filter ?N (users s)" w] typed[of "''email''" ?N]
      by simp
  qed (use assms(3) in simp_all)
  have 3: "(if truthy age then filter_age (filter ?E (filter ?N (users s))) age
            else Inr (filter ?E (filter ?N (users s)))) = Inr (filter ?A (filter ?E (filter ?N (users s))))"
    using filter_age_filter[of "filter (\<lambda>u. ?N u \<and> ?E u) (users s)" age]
      aged[of "\<lambda>u. ?N u \<and> ?E u"]
    by (cases "truthy age") (simp_all add: conj_commute)
  have 4: "filter ?A (filter ?E (filter ?N (users s))) = filter (\<lambda>u. ?N u \<and> ?E u \<and> ?A u) (users s)"
    by (simp add: conj_commute conj_left_commute)
  show ?thesis
    by (simp only: search_users_def 1 2 3 4 sum.case)
qed


section \<open>What the email pattern accepts\<close>

text \<open>
  The states a repetition leaves are the splits of the subject after a non-empty run of
  class characters. Read item by item, the pattern accepts the strings of \<open>email_shape\<close>
  and the same strings with one newline after them.
\<close>

lemma plus_matches_iff:
  "(q, r) \<in> set (plus_matches cls p s) \<longleftrightarrow>
     (\<exists>w. w \<noteq> [] \<and> list_all (in_cls cls) w \<and> s = w @ r \<and> q = p + length w)"
proof (induction s arbitrary: p)
  case Nil
  then show ?case by simp
next
  case (Cons x s)
  show ?case
  proof (cases "in_cls cls x")
    case False
    have "\<not> (\<exists>w. w \<noteq> [] \<and> list_all (in_cls cls) w \<and> x # s = w @ r \<and> q = p + length w)"
    proof
      assume "\<exists>w. w \<noteq> [] \<and> list_all (in_cls cls) w \<and> x # s = w @ r \<and> q = p + length w"
      then obtain w where "w \<noteq> []" "list_all (in_cls cls) w" "x # s = w @ r" by blast
      then have "in_cls cls x" by (cases w) auto
      with False show False by simp
    qed
    with False show ?thesis by simp
  next
    case True
    show ?thesis
    proof
      assume "(q, r) \<in> set (plus_matches cls p (x # s))"
      with True have "(q, r) \<in> set (plus_matches cls (Suc p) s) \<or> (q = Suc p \<and> r = s)"
        by auto
      then show "\<exists>w. w \<noteq> [] \<and> list_all (in_cls cls) w \<and> x # s = w @ r \<and> q = p + length w"
      proof
        assume "(q, r) \<in> set (plus_matches cls (Suc p) s)"
        with Cons.IH[of "Suc p"] obtain w where "w \<noteq> []" "list_all (in_cls cls) w" "s = w @ r"
          "q = Suc p + length w" by blast
        with True have "x # w \<noteq> [] \<and> list_all (in_cls cls) (x # w) \<and> x # s = (x # w) @ r
          \<and> q = p + length (x # w)" by simp
        then show ?thesis by blast
      next
        assume "q = Suc p \<and> r = s"
        with True have "[x] \<noteq> [] \<and> list_all (in_cls cls) [x] \<and> x # s = [x] @ r
          \<and> q = p + length [x]" by simp
        then show ?thesis by blast
      qed
    next
      assume "\<exists>w. w \<noteq> [] \<and> list_all (in_cls cls) w \<and> x # s = w @ r \<and> q = p + length w"
      then obtain w where w: "w \<noteq> []" "list_all (in_cls cls) w" "x # s = w @ r" "q = p + length w"
        by blast
      then obtain w' where w': "w = x # w'" by (cases w) auto
      show "(q, r) \<in> set (plus_matches cls p (x # s))"
      proof (cases "w' = []")
        case True
        with w w' \<open>in_cls cls x\<close> show ?thesis by simp
      next
        case False
        with w w' have "(q, r) \<in> set (plus_matches cls (Suc p) s)"
          using Cons.IH[of "Suc p"] by auto
        with \<open>in_cls cls x\<close> show ?thesis by simp
      qed
    qed
  qed
qed

lemma match_seq_Cons_iff:
  "(match_seq (i # items) st \<noteq> []) = (\<exists>q r. (q, r) \<in> set (match_item i st) \<and> match_seq items (q, r) \<noteq> [])"
  by auto

lemma seq_caret:
  "match_seq (Caret # items) (p, s) \<noteq> [] \<longleftrightarrow> p = 0 \<and> match_seq items (0, s) \<noteq> []"
  by simp

lemma seq_lit:
  "match_seq (Lit c # items) (p, s) \<noteq> [] \<longleftrightarrow> (\<exists>r. s = c # r \<and> match_seq items (Suc p, r) \<noteq> [])"
  by (cases s) auto

lemma seq_plus:
  "match_seq (PlusCls cls # items) (p, s) \<noteq> [] \<longleftrightarrow>
     (\<exists>w r. w \<noteq> [] \<and> list_all (in_cls cls) w \<and> s = w @ r \<and> match_seq items (p + length w, r) \<noteq> [])"
proof -
  have "match_seq (PlusCls cls # items) (p, s) \<noteq> [] \<longleftrightarrow>
      (\<exists>q r. (q, r) \<in> set (plus_matches cls p s) \<and> match_seq items (q, r) \<noteq> [])"
    by (simp only: match_seq_Cons_iff match_item.simps)
  also have "\<dots> \<longleftrightarrow> (\<exists>q r. (\<exists>w. w \<noteq> [] \<and> list_all (in_cls cls) w \<and> s = w @ r \<and> q = p + length w)
      \<and> match_seq items (q, r) \<noteq> [])"
    by (simp only: plus_matches_iff)
  also have "\<dots> \<longleftrightarrow> (\<exists>w r. w \<noteq> [] \<and> list_all (in_cls cls) w \<and> s = w @ r
      \<and> match_seq items (p + length w, r) \<noteq> [])"
    by blast
  finally show ?thesis .
qed

lemma seq_dollar: "match_seq [Dollar] (p, s) \<noteq> [] \<longleftrightarrow> s = [] \<or> s = [CHR 0x0A]"
  by simp

lemma tail_tld:
  "match_seq [PlusCls cls3, Dollar] (p, s) \<noteq> [] \<longleftrightarrow>
     (\<exists>t e. t \<noteq> [] \<and> list_all (in_cls cls3) t \<and> s = t @ e \<and> (e = [] \<or> e = [CHR 0x0A]))"
  by (simp only: seq_plus seq_dollar)

lemma tail_domain:
  "match_seq [PlusCls cls2, Lit c2, PlusCls cls3, Dollar] (p, s) \<noteq> [] \<longleftrightarrow>
     (\<exists>d t e. d \<noteq> [] \<and> list_all (in_cls cls2) d \<and> t \<noteq> [] \<and> list_all (in_cls cls3) t
        \<and> s = d @ c2 # t @ e \<and> (e = [] \<or> e = [CHR 0x0A]))"
  (is "?L \<longleftrightarrow> ?R")
proof
  assume ?L
  then obtain d r where d: "d \<noteq> []" "list_all (in_cls cls2) d" "s = d @ r"
    and r: "\<exists>r'. r = c2 # r' \<and> match_seq [PlusCls cls3, Dollar] (Suc (p + length d), r') \<noteq> []"
    unfolding seq_plus[of cls2] seq_lit by blast
  from r obtain r' where r': "r = c2 # r'"
    and m: "match_seq [PlusCls cls3, Dollar] (Suc (p + length d), r') \<noteq> []"
    by blast
  from m obtain t e where "t \<noteq> []" "list_all (in_cls cls3) t" "r' = t @ e" "e = [] \<or> e = [CHR 0x0A]"
    unfolding tail_tld by blast
  with d r' show ?R by blast
next
  assume ?R
  then obtain d t e where h: "d \<noteq> []" "list_all (in_cls cls2) d" "t \<noteq> []" "list_all (in_cls cls3) t"
    "s = d @ c2 # t @ e" "e = [] \<or> e = [CHR 0x0A]"
    by blast
  from h(3,4,6) have "match_seq [PlusCls cls3, Dollar] (Suc (p + length d), t @ e) \<noteq> []"
    unfolding tail_tld by blast
  then have "\<exists>r'. c2 # t @ e = c2 # r' \<and> match_seq [PlusCls cls3, Dollar] (Suc (p + length d), r') \<noteq> []"
    by blast
  with h(1,2,5) show ?L
    unfolding seq_plus[of cls2] seq_lit by blast
qed

lemma re_match_email_iff:
  "re_match email_regex s \<longleftrightarrow>
     (\<exists>l d t e. l \<noteq> [] \<and> list_all (in_cls local_chars) l
        \<and> d \<noteq> [] \<and> list_all (in_cls domain_chars) d
        \<and> t \<noteq> [] \<and> list_all (in_cls tld_chars) t
        \<and> s = l @ CHR ''@'' # d @ CHR ''.'' # t @ e
        \<and> (e = [] \<or> e = [CHR 0x0A]))"
  (is "?L \<longleftrightarrow> ?R")
proof -
  let ?rest = "[PlusCls domain_chars, Lit CHR ''.'', PlusCls tld_chars, Dollar]"
  have unfold: "?L \<longleftrightarrow> (\<exists>l r. l \<noteq> [] \<and> list_all (in_cls local_chars) l \<and> s = l @ r
      \<and> (\<exists>r'. r = CHR ''@'' # r' \<and> match_seq ?rest (Suc (0 + length l), r') \<noteq> []))"
    by (simp only: re_match_def email_regex_def seq_caret seq_plus[of _ "Lit _ # _"] seq_lit
        local_chars_def domain_chars_def tld_chars_def simp_thms)
  show ?thesis
  proof
    assume ?L
    then obtain l r where l: "l \<noteq> []" "list_all (in_cls local_chars) l" "s = l @ r"
      and r: "\<exists>r'. r = CHR ''@'' # r' \<and> match_seq ?rest (Suc (0 + length l), r') \<noteq> []"
      unfolding unfold by blast
    from r obtain r' where r': "r = CHR ''@'' # r'"
      and m: "match_seq ?rest (Suc (0 + length l), r') \<noteq> []"
      by blast
    from m obtain d t e where "d \<noteq> []" "list_all (in_cls domain_chars) d" "t \<noteq> []"
      "list_all (in_cls tld_chars) t" "r' = d @ CHR ''.'' # t @ e" "e = [] \<or> e = [CHR 0x0A]"
      unfolding tail_domain by blast
    with l r' show ?R by blast
  next
    assume ?R
    then obtain l d t e where h: "l \<noteq> []" "list_all (in_cls local_chars) l"
      "d \<noteq> []" "list_all (in_cls domain_chars) d" "t \<noteq> []" "list_all (in_cls tld_chars) t"
      "s = l @ CHR ''@'' # d @ CHR ''.'' # t @ e" "e = [] \<or> e = [CHR 0x0A]"
      by blast
    from h(3,4,5,6,8) have "match_seq ?rest (Suc (0 + length l), d @ CHR ''.'' # t @ e) \<noteq> []"
      unfolding tail_domain by blast
    then have "\<exists>r'. CHR ''@'' # d @ CHR ''.'' # t @ e = CHR ''@'' # r'
        \<and> match_seq ?rest (Suc (0 + length l), r') \<noteq> []"
      by blast
    with h(1,2,7) show ?L
      unfolding unfold by blast
  qed
qed

lemma validate_email_iff:
  "validate_email (VStr s) = Inr (email_shape s \<or> (\<exists>s0. s = s0 @ [CHR 0x0A] \<and> email_shape s0))"
proof -
  have "re_match email_regex s \<longleftrightarrow> email_shape s \<or> (\<exists>s0. s = s0 @ [CHR 0x0A] \<and> email_shape s0)"
    (is "?L \<longleftrightarrow> ?R")
  proof
    assume ?L
    then obtain l d t e where h: "l \<noteq> []" "list_all (in_cls local_chars) l"
        "d \<noteq> []" "list_all (in_cls domain_chars) d"
        "t \<noteq> []" "list_all (in_cls tld_chars) t"
        "s = l @ CHR ''@'' # d @ CHR ''.'' # t @ e" "e = [] \<or> e = [CHR 0x0A]"
      unfolding re_match_email_iff by blast
    have shape: "email_shape (l @ CHR ''@'' # d @ CHR ''.'' # t)"
      unfolding email_shape_def using h(1-6) by blast
    from h(8) show ?R
    proof
      assume "e = []"
      with h(7) shape show ?R by simp
    next
      assume "e = [CHR 0x0A]"
      with h(7) have "s = (l @ CHR ''@'' # d @ CHR ''.'' # t) @ [CHR 0x0A]" by simp
      with shape show ?R by blast
    qed
  next
    assume ?R
    then obtain s0 e where s: "s = s0 @ e" "e = [] \<or> e = [CHR 0x0A]" and sh: "email_shape s0"
      by (metis append_Nil2)
    from sh obtain l d t where h: "s0 = l @ CHR ''@'' # d @ CHR ''.'' # t"
        "l \<noteq> []" "list_all (in_cls local_chars) l"
        "d \<noteq> []" "list_all (in_cls domain_chars) d"
        "t \<noteq> []" "list_all (in_cls tld_chars) t"
      unfolding email_shape_def by blast
    from s(1) h(1) have "s = l @ CHR ''@'' # d @ CHR ''.'' # t @ e" by simp
    with h s(2) show ?L
      unfolding re_match_email_iff by blast
  qed
  then show ?thesis by simp
qed


section \<open>Writing the file and reading it back\<close>

text \<open>
  The decoder reads back what the encoder wrote, piece by piece: an escaped character, a
  string, a number, a member, an object, the array. Each lemma gives the value read and the
  text left over. An object is read back key by key, which is the object itself when it
  has every key once.
\<close>

declare dump_nat.simps [simp del]

declare parse_members.simps [simp del]

declare parse_elements.simps [simp del]

lemma hex_val_hex_digit: "n < 16 \<Longrightarrow> hex_val (hex_digit n) = Some n"
proof -
  assume "n < 16"
  then have "n \<in> {0, 1, 2, 3, 4, 5, 6, 7, 8, 9, 10, 11, 12, 13, 14, 15}"
    by simp arith
  then show ?thesis
    by (elim insertE emptyE) (simp_all add: hex_val_def hex_digit_def)
qed

lemma of_char_less_256: "(of_char c :: nat) < 256"
proof -
  have "(of_char c :: nat) mod 256 = of_char c" by simp
  then show ?thesis by (metis mod_less_divisor zero_less_numeral)
qed

lemma scan_hex:
  assumes "d1 < 16" "d2 < 16"
  shows "scanstring Plain (bs # CHR ''u'' # CHR ''0'' # CHR ''0'' # hex_digit d1 # hex_digit d2 # r) =
     cons_result (char_of (16 * d1 + d2)) (scanstring Plain r)"
proof -
  have z: "hex_val CHR ''0'' = Some 0" by (simp add: hex_val_def)
  have "16 * d1 + d2 < 256" using assms by simp
  then show ?thesis
    using assms by (simp add: bs_def dq_def z hex_val_hex_digit)
qed

lemma scan_escape: "scanstring Plain (escape_char c @ r) = cons_result c (scanstring Plain r)"
proof (cases "escape_char c = [bs, CHR ''u'', CHR ''0'', CHR ''0'',
              hex_digit (of_char c div 16), hex_digit (of_char c mod 16)]")
  case True
  have a: "(of_char c :: nat) div 16 < 16" using of_char_less_256[of c] by arith
  have b: "(of_char c :: nat) mod 16 < 16" by simp
  have "escape_char c @ r = bs # CHR ''u'' # CHR ''0'' # CHR ''0'' #
      hex_digit (of_char c div 16) # hex_digit (of_char c mod 16) # r"
    using True by simp
  then have "scanstring Plain (escape_char c @ r) =
      cons_result (char_of (16 * ((of_char c :: nat) div 16) + of_char c mod 16)) (scanstring Plain r)"
    by (simp only: scan_hex[OF a b])
  moreover have "16 * ((of_char c :: nat) div 16) + of_char c mod 16 = of_char c"
    by simp
  ultimately show ?thesis by simp
next
  case False
  then show ?thesis
    by (auto simp: escape_char_def unescape_def bs_def dq_def split: if_splits)
qed

lemma scan_dump: "scanstring Plain (concat (map escape_char s) @ dq # r) = Some (s, r)"
  by (induction s) (simp_all add: scan_escape cons_result_def)

lemma digit_char_props:
  assumes "n < 10"
  shows "is_digit (digit_char n)" and "(of_char (digit_char n) :: nat) - 48 = n"
    and "digit_char n = CHR ''0'' \<longleftrightarrow> n = 0"
proof -
  from assms have "n \<in> {0, 1, 2, 3, 4, 5, 6, 7, 8, 9}"
    by simp arith
  then show "is_digit (digit_char n)" and "(of_char (digit_char n) :: nat) - 48 = n"
    and "digit_char n = CHR ''0'' \<longleftrightarrow> n = 0"
    by (elim insertE emptyE; simp add: digit_char_def is_digit_def)+
qed

lemma dump_nat_digits: "list_all is_digit (dump_nat n)"
  by (induction n rule: dump_nat.induct) (subst dump_nat.simps, simp add: digit_char_props)

lemma dump_nat_nonempty: "dump_nat n \<noteq> []"
  by (subst dump_nat.simps) simp

lemma parse_nat_snoc: "parse_nat (ds @ [c]) = 10 * parse_nat ds + (of_char c - 48)"
  by (simp add: parse_nat_def)

lemma parse_nat_dump: "parse_nat (dump_nat n) = n"
proof (induction n rule: dump_nat.induct)
  case (1 n)
  show ?case
  proof (cases "n < 10")
    case True
    then show ?thesis
      by (subst dump_nat.simps) (simp add: parse_nat_def digit_char_props)
  next
    case False
    with 1 have "parse_nat (dump_nat (n div 10)) = n div 10" by simp
    with False show ?thesis
      by (subst dump_nat.simps) (simp add: parse_nat_snoc digit_char_props)
  qed
qed

lemma hd_dump_nat: "hd (dump_nat n) = CHR ''0'' \<Longrightarrow> n = 0"
proof (induction n rule: dump_nat.induct)
  case (1 n)
  show ?case
  proof (cases "n < 10")
    case True
    with 1(2) show ?thesis
      by (subst (asm) dump_nat.simps) (simp add: digit_char_props)
  next
    case False
    with 1(2) have "hd (dump_nat (n div 10)) = CHR ''0''"
      by (subst (asm) dump_nat.simps) (simp add: dump_nat_nonempty)
    with 1(1) False have "n div 10 = 0" by simp
    with False show ?thesis by simp
  qed
qed

lemma dump_nat_0: "dump_nat 0 = ''0''"
  by (subst dump_nat.simps) (simp add: digit_char_def)

lemma digits_then_sep:
  assumes "list_all is_digit ds" and "\<not> is_digit c"
  shows "takeWhile is_digit (ds @ c # r) = ds" and "dropWhile is_digit (ds @ c # r) = c # r"
  using assms by (simp_all add: list_all_iff)

lemma parse_number_dump_nat:
  assumes "\<not> is_digit c" and "c \<notin> set ''.eE''"
  shows "parse_number (dump_nat n @ c # r) = Some (VInt (int n), c # r)"
proof -
  have nm: "hd (dump_nat n @ c # r) \<noteq> CHR ''-''"
    using dump_nat_digits[of n] dump_nat_nonempty[of n]
    by (cases "dump_nat n") (auto simp: is_digit_def)
  have z: "\<not> (hd (dump_nat n) = CHR ''0'' \<and> tl (dump_nat n) \<noteq> [])"
    using hd_dump_nat[of n] dump_nat_0 by auto
  show ?thesis
    using assms nm z dump_nat_nonempty[of n]
    by (simp add: parse_number_def Let_def digits_then_sep[OF dump_nat_digits assms(1)]
        parse_nat_dump)
qed

lemma parse_number_dump:
  assumes "\<not> is_digit c" and "c \<notin> set ''.eE''"
  shows "parse_number (dump_int i @ c # r) = Some (VInt i, c # r)"
proof (cases "i < 0")
  case False
  then show ?thesis
    using parse_number_dump_nat[OF assms, of "nat i" r] by (simp add: dump_int_def)
next
  case True
  have z: "\<not> (hd (dump_nat (nat (- i))) = CHR ''0'' \<and> tl (dump_nat (nat (- i))) \<noteq> [])"
    using hd_dump_nat[of "nat (- i)"] dump_nat_0 by auto
  show ?thesis
    using True assms z dump_nat_nonempty[of "nat (- i)"]
    by (simp add: dump_int_def parse_number_def Let_def
        digits_then_sep[OF dump_nat_digits assms(1)] parse_nat_dump)
qed

lemma dump_int_start: "dump_int i \<noteq> [] \<and> hd (dump_int i) \<noteq> dq \<and> hd (dump_int i) \<noteq> CHR ''n''
    \<and> \<not> is_ws (hd (dump_int i))"
  using dump_nat_digits[of "nat i"] dump_nat_nonempty[of "nat i"]
  by (cases "dump_nat (nat i)") (auto simp: dump_int_def is_digit_def dq_def is_ws_def)

lemma parse_scalar_dump:
  assumes "c = CHR '','' \<or> c = CHR 0x0A"
  shows "parse_scalar (dump_scalar v @ c # r) = Some (v, c # r)"
proof (cases v)
  case VNone
  then show ?thesis
    by (simp add: parse_scalar_def dump_scalar_def dq_def)
next
  case (VInt i)
  from assms have c: "\<not> is_digit c" "c \<notin> set ''.eE''"
    by (auto simp: is_digit_def)
  obtain x xs where x: "dump_int i = x # xs" "x \<noteq> dq" "x \<noteq> CHR ''n''"
    using dump_int_start[of i] by (cases "dump_int i") auto
  have "parse_scalar (dump_int i @ c # r) = parse_number (dump_int i @ c # r)"
    using x by (simp add: parse_scalar_def)
  with VInt show ?thesis
    by (simp add: dump_scalar_def parse_number_dump[OF c])
next
  case (VStr s)
  then show ?thesis
    by (simp add: parse_scalar_def dump_scalar_def dump_str_def scan_dump)
qed

lemma dump_scalar_start: "dump_scalar v \<noteq> [] \<and> \<not> is_ws (hd (dump_scalar v))"
  using dump_int_start
  by (cases v) (auto simp: dump_scalar_def dump_str_def is_ws_def dq_def)

lemma skip_ws_nonws: "\<not> is_ws c \<Longrightarrow> skip_ws (c # s) = c # s"
  by (simp add: skip_ws_def)

lemma skip_ws_spaces: "skip_ws (replicate n CHR '' '' @ s) = skip_ws s"
  by (induction n) (simp_all add: skip_ws_def is_ws_def)

lemma skip_ws_nl_indent: "skip_ws (nl_indent n @ s) = skip_ws s"
proof -
  have "skip_ws (nl_indent n @ s) = skip_ws (replicate (4 * n) CHR '' '' @ s)"
    by (simp add: nl_indent_def skip_ws_def is_ws_def)
  then show ?thesis by (simp only: skip_ws_spaces)
qed

lemma member_value:
  assumes "c = CHR '','' \<or> c = CHR 0x0A"
  shows "parse_members acc (dump_member (k, v) @ c # t) =
     (case skip_ws (c # t) of
        [] \<Rightarrow> None
      | c2 # r4 \<Rightarrow>
          if c2 = CHR '','' then parse_members (setitem k v acc) (skip_ws r4)
          else if c2 = CHR ''}'' then Some (setitem k v acc, r4)
          else None)"
proof -
  obtain x xs where x: "dump_scalar v = x # xs" "\<not> is_ws x"
    using dump_scalar_start[of v] by (cases "dump_scalar v") auto
  have 1: "dump_member (k, v) @ c # t =
      dq # concat (map escape_char k) @ dq # CHR '':'' # CHR '' '' # dump_scalar v @ c # t"
    by (simp add: dump_member_def dump_str_def)
  have 2: "skip_ws (CHR '':'' # CHR '' '' # dump_scalar v @ c # t) =
      CHR '':'' # CHR '' '' # dump_scalar v @ c # t"
    by (simp add: skip_ws_def is_ws_def)
  have 3: "skip_ws (CHR '' '' # dump_scalar v @ c # t) = dump_scalar v @ c # t"
    using x by (simp add: skip_ws_def is_ws_def)
  show ?thesis
    unfolding 1
    by (subst parse_members.simps) (simp add: scan_dump 2 3 parse_scalar_dump[OF assms])
qed

lemma member_then_comma:
  "parse_members acc (dump_member (k, v) @ CHR '','' # t) = parse_members (setitem k v acc) (skip_ws t)"
  by (simp add: member_value skip_ws_nonws is_ws_def)

lemma member_then_close:
  assumes "skip_ws t = CHR ''}'' # r"
  shows "parse_members acc (dump_member (k, v) @ CHR 0x0A # t) = Some (setitem k v acc, r)"
proof -
  have "skip_ws (CHR 0x0A # t) = skip_ws t"
    by (simp add: skip_ws_def is_ws_def)
  with assms show ?thesis
    by (simp add: member_value)
qed

lemma dump_member_start: "\<exists>xs. dump_member m = dq # xs"
  by (simp add: dump_member_def dump_str_def)

lemma join_members_start:
  "ms \<noteq> [] \<Longrightarrow> \<exists>xs. join sep (map dump_member ms) = dq # xs"
proof (cases ms)
  case Nil
  assume "ms \<noteq> []"
  with Nil show ?thesis by simp
next
  case (Cons m ms')
  obtain xs where "dump_member m = dq # xs" using dump_member_start by blast
  with Cons show ?thesis by (cases ms') simp_all
qed

lemma parse_members_dump:
  "ms \<noteq> [] \<Longrightarrow>
   parse_members acc (join ('','' @ nl_indent 2) (map dump_member ms) @ nl_indent 1 @ ''}'' @ r) =
     Some (dict_update acc ms, r)"
proof (induction ms arbitrary: acc)
  case Nil
  then show ?case by simp
next
  case (Cons m ms)
  obtain k v where m: "m = (k, v)" by (cases m)
  show ?case
  proof (cases "ms = []")
    case True
    have "skip_ws (replicate 4 CHR '' '' @ CHR ''}'' # r) = CHR ''}'' # r"
      by (simp only: skip_ws_spaces) (simp add: skip_ws_def is_ws_def)
    then have "parse_members acc (dump_member (k, v) @ CHR 0x0A # replicate 4 CHR '' '' @ CHR ''}'' # r) =
        Some (setitem k v acc, r)"
      by (rule member_then_close)
    with True m show ?thesis
      by (simp add: nl_indent_def)
  next
    case False
    then obtain xs where xs: "join ('','' @ nl_indent 2) (map dump_member ms) = dq # xs"
      using join_members_start by blast
    let ?rest = "join ('','' @ nl_indent 2) (map dump_member ms) @ nl_indent 1 @ ''}'' @ r"
    have sk: "skip_ws (nl_indent 2 @ ?rest) = ?rest"
      unfolding skip_ws_nl_indent using xs by (simp add: skip_ws_def is_ws_def dq_def)
    from False obtain m' ms' where ms: "ms = m' # ms'" by (cases ms) auto
    have "join ('','' @ nl_indent 2) (map dump_member (m # ms)) @ nl_indent 1 @ ''}'' @ r =
        dump_member (k, v) @ CHR '','' # (nl_indent 2 @ ?rest)"
      using m ms by simp
    then have "parse_members acc (join ('','' @ nl_indent 2) (map dump_member (m # ms)) @ nl_indent 1 @ ''}'' @ r) =
        parse_members (setitem k v acc) ?rest"
      by (simp only: member_then_comma sk)
    also have "\<dots> = Some (dict_update (setitem k v acc) ms, r)"
      using False by (rule Cons.IH)
    finally show ?thesis using m by simp
  qed
qed

lemma parse_object_dump: "\<exists>xs. dump_dict d = CHR ''{'' # xs \<and> parse_object (xs @ r) = Some (dict_update [] d, r)"
proof (cases "d = []")
  case True
  then show ?thesis
    by (simp add: dump_dict_def parse_object_def skip_ws_def is_ws_def)
next
  case False
  then obtain xs where xs: "join ('','' @ nl_indent 2) (map dump_member d) = dq # xs"
    using join_members_start by blast
  let ?body = "join ('','' @ nl_indent 2) (map dump_member d) @ nl_indent 1 @ ''}'' @ r"
  have sk: "skip_ws (nl_indent 2 @ ?body) = ?body"
    unfolding skip_ws_nl_indent using xs by (simp add: skip_ws_def is_ws_def dq_def)
  have "parse_object (nl_indent 2 @ ?body) = parse_members [] ?body"
    unfolding parse_object_def sk using xs by (simp add: dq_def)
  also have "\<dots> = Some (dict_update [] d, r)"
    using False by (rule parse_members_dump)
  finally show ?thesis
    using False by (simp add: dump_dict_def)
qed

lemma element_value:
  "parse_elements acc (dump_dict d @ t) =
     (case skip_ws t of
        [] \<Rightarrow> None
      | c1 # r2 \<Rightarrow>
          if c1 = CHR '','' then parse_elements (acc @ [dict_update [] d]) (skip_ws r2)
          else if c1 = CHR '']'' then Some (acc @ [dict_update [] d], r2)
          else None)"
proof -
  obtain xs where xs: "dump_dict d = CHR ''{'' # xs" "parse_object (xs @ t) = Some (dict_update [] d, t)"
    using parse_object_dump by blast
  show ?thesis
    unfolding xs(1) by (subst parse_elements.simps) (simp add: xs(2))
qed

lemma element_then_comma:
  "parse_elements acc (dump_dict d @ CHR '','' # t) =
     parse_elements (acc @ [dict_update [] d]) (skip_ws t)"
  by (simp add: element_value skip_ws_nonws is_ws_def)

lemma element_then_close:
  "skip_ws t = CHR '']'' # r \<Longrightarrow> parse_elements acc (dump_dict d @ t) = Some (acc @ [dict_update [] d], r)"
  by (simp add: element_value)

lemma json_loads_array:
  assumes "skip_ws t = CHR ''{'' # b" and "parse_elements [] (CHR ''{'' # b) = Some (us, rest)"
    and "skip_ws rest = []"
  shows "json_loads (CHR ''['' # t) = Inr us"
  using assms by (simp add: json_loads_def skip_ws_nonws is_ws_def)

lemma dump_dict_start: "\<exists>xs. dump_dict d = CHR ''{'' # xs"
  by (simp add: dump_dict_def)

lemma join_dicts_start:
  "us \<noteq> [] \<Longrightarrow> \<exists>xs. join sep (map dump_dict us) = CHR ''{'' # xs"
proof (cases us)
  case Nil
  assume "us \<noteq> []"
  with Nil show ?thesis by simp
next
  case (Cons u us')
  obtain xs where "dump_dict u = CHR ''{'' # xs" using dump_dict_start by blast
  with Cons show ?thesis by (cases us') simp_all
qed

lemma parse_elements_dump:
  "us \<noteq> [] \<Longrightarrow>
   parse_elements acc (join ('','' @ nl_indent 1) (map dump_dict us) @ nl_indent 0 @ '']'' @ r) =
     Some (acc @ map (dict_update []) us, r)"
proof (induction us arbitrary: acc)
  case Nil
  then show ?case by simp
next
  case (Cons u us)
  show ?case
  proof (cases "us = []")
    case True
    have "skip_ws (nl_indent 0 @ CHR '']'' # r) = CHR '']'' # r"
      by (simp only: skip_ws_nl_indent) (simp add: skip_ws_def is_ws_def)
    then have "parse_elements acc (dump_dict u @ nl_indent 0 @ CHR '']'' # r) =
        Some (acc @ [dict_update [] u], r)"
      by (rule element_then_close)
    with True show ?thesis by simp
  next
    case False
    then obtain xs where xs: "join ('','' @ nl_indent 1) (map dump_dict us) = CHR ''{'' # xs"
      using join_dicts_start by blast
    let ?rest = "join ('','' @ nl_indent 1) (map dump_dict us) @ nl_indent 0 @ '']'' @ r"
    have sk: "skip_ws (nl_indent 1 @ ?rest) = ?rest"
      unfolding skip_ws_nl_indent using xs by (simp add: skip_ws_def is_ws_def)
    from False obtain u' us' where us: "us = u' # us'" by (cases us) auto
    have "join ('','' @ nl_indent 1) (map dump_dict (u # us)) @ nl_indent 0 @ '']'' @ r =
        dump_dict u @ CHR '','' # (nl_indent 1 @ ?rest)"
      using us by simp
    then have "parse_elements acc (join ('','' @ nl_indent 1) (map dump_dict (u # us)) @ nl_indent 0 @ '']'' @ r) =
        parse_elements (acc @ [dict_update [] u]) ?rest"
      by (simp only: element_then_comma sk)
    also have "\<dots> = Some ((acc @ [dict_update [] u]) @ map (dict_update []) us, r)"
      using False by (rule Cons.IH)
    finally show ?thesis by simp
  qed
qed

lemma json_loads_dumps: "json_loads (json_dumps us) = Inr (map (dict_update []) us)"
proof (cases "us = []")
  case True
  then show ?thesis
    by (simp add: json_loads_def json_dumps_def skip_ws_def is_ws_def)
next
  case False
  then obtain xs where xs: "join ('','' @ nl_indent 1) (map dump_dict us) = CHR ''{'' # xs"
    using join_dicts_start by blast
  let ?body = "join ('','' @ nl_indent 1) (map dump_dict us) @ nl_indent 0 @ '']'' @ []"
  have sk: "skip_ws (nl_indent 1 @ ?body) = ?body"
    unfolding skip_ws_nl_indent using xs by (simp add: skip_ws_def is_ws_def)
  have pe: "parse_elements [] ?body = Some ([] @ map (dict_update []) us, [])"
    using False by (rule parse_elements_dump)
  have d: "json_dumps us = CHR ''['' # (nl_indent 1 @ ?body)"
    using False by (simp add: json_dumps_def)
  obtain b where b: "?body = CHR ''{'' # b"
    using xs by simp
  have "json_loads (CHR ''['' # (nl_indent 1 @ ?body)) = Inr ([] @ map (dict_update []) us)"
  proof (rule json_loads_array)
    show "skip_ws (nl_indent 1 @ ?body) = CHR ''{'' # b"
      using sk b by simp
    show "parse_elements [] (CHR ''{'' # b) = Some ([] @ map (dict_update []) us, [])"
      using pe b by simp
    show "skip_ws [] = []"
      by (simp add: skip_ws_def)
  qed
  then show ?thesis
    by (simp only: d append_Nil)
qed

lemma setitem_new: "k \<notin> fst ` set d \<Longrightarrow> setitem k v d = d @ [(k, v)]"
  by (induction d) auto

lemma dict_update_append:
  "distinct (map fst (acc @ d)) \<Longrightarrow> dict_update acc d = acc @ d"
proof (induction d arbitrary: acc)
  case Nil
  then show ?case by simp
next
  case (Cons m d)
  obtain k v where m: "m = (k, v)" by (cases m)
  with Cons.prems have "k \<notin> fst ` set acc" and "distinct (map fst ((acc @ [(k, v)]) @ d))"
    by auto
  with Cons.IH[of "acc @ [(k, v)]"] m show ?case
    by (simp add: setitem_new)
qed

lemma json_roundtrip:
  "list_all (\<lambda>u. distinct (map fst u)) us \<Longrightarrow> json_loads (json_dumps us) = Inr us"
proof -
  assume "list_all (\<lambda>u. distinct (map fst u)) us"
  then have "map (dict_update []) us = us"
    by (induction us) (simp_all add: dict_update_append[of "[]", simplified])
  then show ?thesis by (simp add: json_loads_dumps)
qed

lemma json_dumps_sample:
  "json_dumps [[(''id'', VStr ''1''), (''age'', VInt 30)], []] =
     ''['' @ [CHR 0x0A] @
     ''    {'' @ [CHR 0x0A] @
     ''        '' @ [dq] @ ''id'' @ [dq] @ '': '' @ [dq] @ ''1'' @ [dq] @ '','' @ [CHR 0x0A] @
     ''        '' @ [dq] @ ''age'' @ [dq] @ '': 30'' @ [CHR 0x0A] @
     ''    },'' @ [CHR 0x0A] @
     ''    {}'' @ [CHR 0x0A] @
     '']''"
  by code_simp

lemma json_loads_sample:
  "json_loads (''  [{'' @ [dq] @ ''a'' @ [dq] @ '':-12 ,'' @ [dq, bs] @ ''u0041'' @ [dq] @ '' : null,''
      @ [dq] @ ''a'' @ [dq] @ '':'' @ [dq, bs] @ ''n'' @ [dq] @ ''} ] '') =
     Inr [[(''a'', VStr [CHR 0x0A]), (''A'', VNone)]]"
  by code_simp


section \<open>The claims\<close>

text \<open>
  C1. The claim is that no successful operation leaves two records with the same \<^verbatim>\<open>id\<close>.
  \<open>create_user\<close> and \<open>delete_user\<close> keep it so, and so does \<open>update_user\<close> when the
  partial fields have no \<^verbatim>\<open>id\<close> (lemmas \<open>create_user_keeps_ids\<close>, \<open>delete_user_keeps_ids\<close>,
  \<open>update_user_keeps_ids\<close>). With an \<^verbatim>\<open>id\<close> among the partial fields \<open>update_user\<close> merges
  it unchecked: from the empty store, two successful creations and one successful update
  end with two records of id \<^verbatim>\<open>"2"\<close>.
\<close>

theorem update_id_duplicates:
  "create_user id store_empty bob = (Inr True, store_bob)
   \<and> create_user id store_bob alice = (Inr True, store_two)
   \<and> ids_unique (users store_two)
   \<and> fst (update_user id store_two (VStr ''1'') [(''id'', VStr ''2'')]) = Inr True
   \<and> users (snd (update_user id store_two (VStr ''1'') [(''id'', VStr ''2'')])) =
       [dict_update bob [(''id'', VStr ''2'')], alice]
   \<and> getitem (dict_update bob [(''id'', VStr ''2'')]) ''id'' = Inr (VStr ''2'')
   \<and> getitem alice ''id'' = Inr (VStr ''2'')
   \<and> \<not> ids_unique (users (snd (update_user id store_two (VStr ''1'') [(''id'', VStr ''2'')])))"
  by (simp add: create_user_def read_user_def update_user_def sample_defs getitem_def regex_defs
      save_users_def ids_unique_def)

text \<open>
  C2, as amended. In a collection whose records all carry an \<^verbatim>\<open>id\<close>, no two the same, a
  successful \<open>delete_user\<close> of a non-empty id (any value that is true in a test) is followed
  by a \<open>read_user\<close> of that id returning \<^verbatim>\<open>None\<close>. The claim as stated, for every
  collection and every id, fails three ways: a second record with the id is the one read
  back, the empty id reads the whole list, and a later record without an \<^verbatim>\<open>id\<close> raises
  \<^verbatim>\<open>KeyError\<close>.
\<close>

theorem delete_then_read:
  assumes "list_all has_id (users s)" and "ids_unique (users s)" and "truthy user_id"
    and "delete_user dump s user_id = (Inr True, s')"
  shows "read_user s' user_id = Inr RNone"
proof -
  from delete_user_True[OF assms(4)] obtain pre u post where m: "users s = pre @ u # post"
    "\<forall>x \<in> set pre. map_of x ''id'' \<noteq> Some user_id" "map_of u ''id'' = Some user_id"
    "s' = save_users dump (s\<lparr>users := pre @ post\<rparr>)"
    by blast
  from assms(2) m(1,3) have "\<forall>x \<in> set post. map_of x ''id'' \<noteq> Some user_id"
    by (force simp: ids_unique_def image_iff)
  with m(2) have none: "\<forall>x \<in> set (pre @ post). map_of x ''id'' \<noteq> Some user_id"
    by auto
  from assms(1) m(1) have "list_all has_id (pre @ post)"
    by simp
  with none have "read_loop (pre @ post) user_id = Inr RNone"
    by (rule read_loop_no_match[rotated]) 
  with assms(3) m(4) show ?thesis
    by (simp add: read_user_def save_users_def)
qed

theorem delete_then_read_witness:
  "delete_user id store_two (VStr ''1'') = (Inr True, save_users id (store_two\<lparr>users := [alice]\<rparr>))
   \<and> read_user (save_users id (store_two\<lparr>users := [alice]\<rparr>)) (VStr ''1'') = Inr RNone"
proof -
  have d: "delete_user id store_two (VStr ''1'') = (Inr True, save_users id (store_two\<lparr>users := [alice]\<rparr>))"
    by (simp add: delete_user_def sample_defs getitem_def dict_eq_def)
  have "read_user (save_users id (store_two\<lparr>users := [alice]\<rparr>)) (VStr ''1'') = Inr RNone"
    by (rule delete_then_read [where s = store_two and dump = id, OF _ _ _ d])
       (simp_all add: sample_defs has_id_def ids_unique_def)
  with d show ?thesis by simp
qed

theorem delete_then_read_counterexample:
  "fst (delete_user id (store_of [bob, bob_twin]) (VStr ''1'')) = Inr True
   \<and> read_user (snd (delete_user id (store_of [bob, bob_twin]) (VStr ''1''))) (VStr ''1'') =
       Inr (RUser bob_twin)
   \<and> fst (delete_user id (store_of [anon]) (VStr [])) = Inr True
   \<and> read_user (snd (delete_user id (store_of [anon]) (VStr []))) (VStr []) = Inr (RAll [])
   \<and> fst (delete_user id (store_of [bob, nemo]) (VStr ''1'')) = Inr True
   \<and> read_user (snd (delete_user id (store_of [bob, nemo]) (VStr ''1''))) (VStr ''1'') =
       Inl KeyError"
  by (simp add: delete_user_def read_user_def sample_defs getitem_def dict_eq_def save_users_def)

text \<open>
  C3. The claim is that \<open>search_users\<close> filters by every criterion given, the age 0
  included. The code tests \<^verbatim>\<open>if age:\<close>, so an age of 0 is no filter at all: searching the
  store that holds Bob, aged 30, for the age 0 returns Bob. For criteria that are true in
  a test the result is the filter the claim describes (lemma \<open>search_users_filter\<close>).
\<close>

theorem search_age_zero:
  "search_users store_bob VNone VNone (VInt 0) = Inr [bob]
   \<and> getitem bob ''age'' = Inr (VInt 30)"
  by (simp add: search_users_def sample_defs getitem_def)

text \<open>
  C4. The claim is that \<open>validate_email\<close> accepts exactly the strings of the shape
  \<open>email_shape\<close>, with nothing after the last class. The \<^verbatim>\<open>$\<close> of the pattern also matches
  before a final newline, so an address followed by a newline is accepted although it has
  not that shape. Lemma \<open>validate_email_iff\<close> gives what is accepted exactly.
\<close>

theorem trailing_newline_accepted:
  "validate_email (VStr (''a@b.c'' @ [CHR 0x0A])) = Inr True
   \<and> \<not> email_shape (''a@b.c'' @ [CHR 0x0A])"
proof -
  have "\<not> email_shape (''a@b.c'' @ [CHR 0x0A])"
  proof
    assume "email_shape (''a@b.c'' @ [CHR 0x0A])"
    then obtain l d t where s: "''a@b.c'' @ [CHR 0x0A] = l @ CHR ''@'' # d @ CHR ''.'' # t"
      and t: "t \<noteq> []" "list_all (in_cls tld_chars) t"
      by (auto simp: email_shape_def)
    from t(1) have "last (l @ CHR ''@'' # d @ CHR ''.'' # t) = last t"
      by simp
    with s have "last t = CHR 0x0A"
      by (metis last_snoc)
    moreover from t have "in_cls tld_chars (last t)"
      by (simp add: list_all_iff)
    ultimately show False
      by (simp add: in_cls_def tld_chars_def alnum_def)
  qed
  then show ?thesis
    by (simp add: regex_defs)
qed

text \<open>
  C5. The claim is that \<open>create_user\<close> refuses a record whose id exists, else one whose
  email is invalid, and otherwise appends and saves. For an id that is true in a test the
  code does so (lemma \<open>create_user_checks\<close>). With the empty id and a non-empty collection
  it reports a duplicate although no record has that id and the email is valid.
\<close>

theorem create_empty_id_refused:
  "create_user id store_bob anon =
     (Inr False, py_print ''User with this ID already exists.'' store_bob)
   \<and> users store_bob = [bob]
   \<and> getitem bob ''id'' = Inr (VStr ''1'')
   \<and> getitem anon ''id'' = Inr (VStr [])
   \<and> getitem anon ''email'' = Inr (VStr ''eve@ex.org'')
   \<and> validate_email (VStr ''eve@ex.org'') = Inr True"
  by (simp add: create_user_def read_user_def sample_defs getitem_def regex_defs)

text \<open>
  C6, as amended. With an email that \<open>validate_email\<close> rejects, \<open>create_user\<close> (the email
  being the one in the record) and \<open>update_user\<close> (the email being among the partial
  fields) never succeed, whatever the collection, and leave the collection in memory and
  the files as they were. When every record of the collection has an \<^verbatim>\<open>id\<close>, and the
  record to create has one, the call returns \<^verbatim>\<open>False\<close>; and when it gets as far as the
  email check (no duplicate found by \<open>create_user\<close>, a record matched by \<open>update_user\<close>)
  the line printed is the one for an invalid email. The claim as stated fails on a
  collection with a record without \<^verbatim>\<open>id\<close>, where both calls raise \<^verbatim>\<open>KeyError\<close>, and its
  signal fails where another check comes first: a duplicate id is reported as such, and an
  update of an unknown id prints nothing.
\<close>

theorem invalid_email_rejected:
  assumes "validate_email email = Inr False"
  shows "(getitem user ''email'' = Inr email \<longrightarrow>
            fst (create_user dump s user) \<noteq> Inr True
          \<and> users (snd (create_user dump s user)) = users s
          \<and> files (snd (create_user dump s user)) = files s
          \<and> (list_all has_id (users s) \<and> getitem user ''id'' = Inr uid \<longrightarrow>
               fst (create_user dump s user) = Inr False
             \<and> (read_user s uid = Inr found \<and> \<not> result_truthy found \<longrightarrow>
                  stdout (snd (create_user dump s user)) = stdout s @ [''Invalid email format.''])))
       \<and> (map_of updated_user ''email'' = Some email \<longrightarrow>
            fst (update_user dump s user_id updated_user) \<noteq> Inr True
          \<and> users (snd (update_user dump s user_id updated_user)) = users s
          \<and> files (snd (update_user dump s user_id updated_user)) = files s
          \<and> (list_all has_id (users s) \<longrightarrow>
               fst (update_user dump s user_id updated_user) = Inr False
             \<and> ((\<exists>u \<in> set (users s). map_of u ''id'' = Some user_id) \<longrightarrow>
                  stdout (snd (update_user dump s user_id updated_user)) =
                    stdout s @ [''Invalid email format.''])))"
proof (intro conjI impI)
  assume em: "getitem user ''email'' = Inr email"
  note any = create_user_invalid_any[OF em assms, of dump s]
  show "fst (create_user dump s user) \<noteq> Inr True"
    using any by auto
  show "users (snd (create_user dump s user)) = users s"
    using any by (auto simp: py_print_def)
  show "files (snd (create_user dump s user)) = files s"
    using any by (auto simp: py_print_def)
  assume wf: "list_all has_id (users s) \<and> getitem user ''id'' = Inr uid"
  then obtain r where r: "read_user s uid = Inr r"
    using read_loop_total[of "users s" uid] by (cases "truthy uid") (auto simp: read_user_def)
  have c: "create_user dump s user =
      (Inr False, py_print (if result_truthy r then ''User with this ID already exists.''
                            else ''Invalid email format.'') s)"
    using wf em r assms by (simp add: create_user_def)
  show "fst (create_user dump s user) = Inr False"
    by (simp add: c)
  assume "read_user s uid = Inr found \<and> \<not> result_truthy found"
  with r have "\<not> result_truthy r" by simp
  then show "stdout (snd (create_user dump s user)) = stdout s @ [''Invalid email format.'']"
    by (simp add: c py_print_def)
next
  assume e: "map_of updated_user ''email'' = Some email"
  note any = update_loop_invalid_any[OF e assms, of dump s "[]" "users s" user_id]
  show "fst (update_user dump s user_id updated_user) \<noteq> Inr True"
    using any by (auto simp: update_user_def)
  show "users (snd (update_user dump s user_id updated_user)) = users s"
    using any by (auto simp: update_user_def py_print_def)
  show "files (snd (update_user dump s user_id updated_user)) = files s"
    using any by (auto simp: update_user_def py_print_def)
  assume wf: "list_all has_id (users s)"
  show "fst (update_user dump s user_id updated_user) = Inr False"
    using update_loop_invalid[OF wf e assms, of dump s "[]" user_id]
    by (auto simp: update_user_def)
  assume "\<exists>u \<in> set (users s). map_of u ''id'' = Some user_id"
  from update_loop_invalid_match[OF wf this e assms, of dump s "[]"]
  show "stdout (snd (update_user dump s user_id updated_user)) = stdout s @ [''Invalid email format.'']"
    by (simp add: update_user_def py_print_def)
qed

theorem invalid_email_rejected_witness:
  "fst (create_user id store_bob mallory) = Inr False
   \<and> users (snd (create_user id store_bob mallory)) = [bob]
   \<and> stdout (snd (create_user id store_bob mallory)) = [''Invalid email format.'']
   \<and> fst (update_user id store_bob (VStr ''1'') [(''email'', VStr ''not-an-email'')]) = Inr False
   \<and> users (snd (update_user id store_bob (VStr ''1'') [(''email'', VStr ''not-an-email'')])) = [bob]
   \<and> stdout (snd (update_user id store_bob (VStr ''1'') [(''email'', VStr ''not-an-email'')])) =
       [''Invalid email format.'']"
  using invalid_email_rejected [where s = store_bob and email = "VStr ''not-an-email''"
      and user = mallory and uid = "VStr ''3''" and dump = id and found = RNone
      and updated_user = "[(''email'', VStr ''not-an-email'')]" and user_id = "VStr ''1''"]
  by (simp add: sample_defs has_id_def getitem_def regex_defs read_user_def)

theorem invalid_email_counterexample:
  "validate_email (VStr ''not-an-email'') = Inr False
   \<and> getitem mallory ''email'' = Inr (VStr ''not-an-email'')
   \<and> fst (create_user id (store_of [nemo]) mallory) = Inl KeyError
   \<and> fst (update_user id (store_of [nemo]) (VStr ''1'') [(''email'', VStr ''not-an-email'')]) =
       Inl KeyError
   \<and> getitem bob_bad ''email'' = Inr (VStr ''not-an-email'')
   \<and> create_user id store_bob bob_bad =
       (Inr False, py_print ''User with this ID already exists.'' store_bob)
   \<and> update_user id store_bob (VStr ''9'') [(''email'', VStr ''not-an-email'')] =
       (Inr False, store_bob)"
  by (simp add: create_user_def read_user_def update_user_def sample_defs getitem_def regex_defs)

text \<open>
  C7, as amended. When every record of the collection has an \<^verbatim>\<open>id\<close> and none has the given
  one, \<open>update_user\<close> returns \<^verbatim>\<open>False\<close> and the state is exactly the one before. When
  \<open>user\<close> is the first record with the id, the records before it have an \<^verbatim>\<open>id\<close>, and the
  partial fields have no email or a valid one, \<open>update_user\<close> returns \<^verbatim>\<open>True\<close>, that
  record alone is replaced by the merged one, the collection is saved, and in the merged
  record a key of the partial fields has the new value and every other key its old one.
  The claim as stated, for every collection, fails where the loop meets a record without
  \<^verbatim>\<open>id\<close> before it is done: \<open>update_user\<close> raises \<^verbatim>\<open>KeyError\<close>.
\<close>

theorem update_user_merge:
  "(list_all has_id (users s) \<and> (\<forall>u \<in> set (users s). map_of u ''id'' \<noteq> Some user_id) \<longrightarrow>
      update_user dump s user_id updated_user = (Inr False, s))
 \<and> (users s = before @ user # rest \<and> list_all has_id before
      \<and> (\<forall>u \<in> set before. map_of u ''id'' \<noteq> Some user_id) \<and> map_of user ''id'' = Some user_id
      \<and> (map_of updated_user ''email'' = None
           \<or> (\<exists>email. map_of updated_user ''email'' = Some email \<and> validate_email email = Inr True))
      \<and> distinct (map fst updated_user) \<longrightarrow>
      update_user dump s user_id updated_user =
        (Inr True, save_users dump (s\<lparr>users := before @ dict_update user updated_user # rest\<rparr>))
    \<and> (\<forall>k. map_of (dict_update user updated_user) k =
            (case map_of updated_user k of None \<Rightarrow> map_of user k | Some v \<Rightarrow> Some v)))"
proof (intro conjI impI allI)
  assume "list_all has_id (users s) \<and> (\<forall>u \<in> set (users s). map_of u ''id'' \<noteq> Some user_id)"
  then show "update_user dump s user_id updated_user = (Inr False, s)"
    by (simp add: update_user_def update_loop_no_match)
next
  assume h: "users s = before @ user # rest \<and> list_all has_id before
      \<and> (\<forall>u \<in> set before. map_of u ''id'' \<noteq> Some user_id) \<and> map_of user ''id'' = Some user_id
      \<and> (map_of updated_user ''email'' = None
           \<or> (\<exists>email. map_of updated_user ''email'' = Some email \<and> validate_email email = Inr True))
      \<and> distinct (map fst updated_user)"
  then have "update_loop dump s [] (before @ user # rest) user_id updated_user =
        (Inr True, save_users dump (s\<lparr>users := [] @ before @ dict_update user updated_user # rest\<rparr>))"
    by (subst update_loop_match) auto
  with h show "update_user dump s user_id updated_user =
        (Inr True, save_users dump (s\<lparr>users := before @ dict_update user updated_user # rest\<rparr>))"
    by (simp add: update_user_def)
  fix k
  from h show "map_of (dict_update user updated_user) k =
            (case map_of updated_user k of None \<Rightarrow> map_of user k | Some v \<Rightarrow> Some v)"
    by (simp add: map_of_dict_update)
qed

theorem update_user_merge_witness:
  "update_user id store_two (VStr ''9'') [(''age'', VInt 26)] = (Inr False, store_two)
   \<and> update_user id store_two (VStr ''2'') [(''age'', VInt 26)] =
       (Inr True, save_users id (store_two\<lparr>users := [bob, dict_update alice [(''age'', VInt 26)]]\<rparr>))
   \<and> map_of (dict_update alice [(''age'', VInt 26)]) ''age'' = Some (VInt 26)
   \<and> map_of (dict_update alice [(''age'', VInt 26)]) ''email'' = Some (VStr ''al@ex.org'')"
proof -
  have "update_user id store_two (VStr ''9'') [(''age'', VInt 26)] = (Inr False, store_two)"
    using update_user_merge [where s = store_two and user_id = "VStr ''9''" and dump = id
        and updated_user = "[(''age'', VInt 26)]", THEN conjunct1]
    by (simp add: sample_defs has_id_def)
  moreover have m: "update_user id store_two (VStr ''2'') [(''age'', VInt 26)] =
       (Inr True, save_users id (store_two\<lparr>users := [bob] @ dict_update alice [(''age'', VInt 26)] # []\<rparr>))
    \<and> (\<forall>k. map_of (dict_update alice [(''age'', VInt 26)]) k =
            (case map_of [(''age'', VInt 26)] k of None \<Rightarrow> map_of alice k | Some v \<Rightarrow> Some v))"
    by (rule update_user_merge [where s = store_two and user_id = "VStr ''2''" and dump = id
          and updated_user = "[(''age'', VInt 26)]" and before = "[bob]" and user = alice
          and rest = "[]", THEN conjunct2, THEN mp])
       (simp add: sample_defs has_id_def)
  moreover from m have "map_of (dict_update alice [(''age'', VInt 26)]) ''age'' = Some (VInt 26)"
    by simp
  moreover from m have "map_of (dict_update alice [(''age'', VInt 26)]) ''email'' =
      Some (VStr ''al@ex.org'')"
    by (simp add: alice_def)
  ultimately show ?thesis by simp
qed

theorem update_user_counterexample:
  "getitem bob ''id'' = Inr (VStr ''1'') \<and> getitem nemo ''id'' = Inl KeyError
   \<and> update_user id (store_of [bob, nemo]) (VStr ''9'') [(''age'', VInt 26)] =
       (Inl KeyError, store_of [bob, nemo])
   \<and> update_user id (store_of [nemo, bob]) (VStr ''1'') [(''age'', VInt 26)] =
       (Inl KeyError, store_of [nemo, bob])"
  by (simp add: update_user_def sample_defs getitem_def)

text \<open>
  C8. After \<open>save_users\<close> has written the collection as JSON text, loading from the same
  file gives back that collection, record for record and in the same order: whatever
  collection is in memory when \<open>load_users\<close> runs is replaced by the saved one, and a store
  initialised on the saved files holds it too. Every record is a dictionary, that is, an
  association list with every key once.
\<close>

theorem save_then_load:
  assumes "list_all (\<lambda>u. distinct (map fst u)) (users s)"
  shows "load_users json_loads ((save_users json_dumps s)\<lparr>users := discarded\<rparr>) =
           (Inr (), save_users json_dumps s)
       \<and> users (snd (load_users json_loads ((save_users json_dumps s)\<lparr>users := discarded\<rparr>))) =
           users s
       \<and> init json_loads (filename s) (files (save_users json_dumps s)) (stdout s) =
           (Inr (), save_users json_dumps s)"
  using json_roundtrip[OF assms]
  by (simp add: load_users_def save_users_def init_def)

theorem save_then_load_witness:
  "load_users json_loads ((save_users json_dumps text_store)\<lparr>users := []\<rparr>) =
     (Inr (), save_users json_dumps text_store)
   \<and> users (snd (load_users json_loads ((save_users json_dumps text_store)\<lparr>users := []\<rparr>))) =
     [bob, alice]"
proof -
  have "list_all (\<lambda>u. distinct (map fst u)) (users text_store)"
    by (simp add: text_store_def bob_def alice_def)
  from save_then_load[OF this, of "[]"] show ?thesis
    by (simp add: text_store_def save_users_def)
qed

text \<open>
  C9. A record whose \<^verbatim>\<open>id\<close> is the empty string is refused by \<open>create_user\<close> on every
  non-empty collection, with the message of a duplicate id and whatever ids the collection
  holds; on the empty collection the same record, its email valid, is created.
\<close>

theorem create_user_empty_id:
  assumes "getitem user ''id'' = Inr (VStr [])"
  shows "(users s \<noteq> [] \<longrightarrow>
            create_user dump s user = (Inr False, py_print ''User with this ID already exists.'' s))
       \<and> (users s = [] \<and> getitem user ''email'' = Inr email \<and> validate_email email = Inr True \<longrightarrow>
            create_user dump s user = (Inr True, save_users dump (s\<lparr>users := [user]\<rparr>)))"
  using assms by (simp add: create_user_def read_user_def)

theorem create_user_empty_id_witness:
  "create_user id store_bob anon =
     (Inr False, py_print ''User with this ID already exists.'' store_bob)
   \<and> read_loop (users store_bob) (VStr []) = Inr RNone
   \<and> create_user id store_empty anon = (Inr True, save_users id (store_empty\<lparr>users := [anon]\<rparr>))"
  using create_user_empty_id [where user = anon and s = store_bob and dump = id]
    create_user_empty_id [where user = anon and s = store_empty and dump = id
      and email = "VStr ''eve@ex.org''"]
  by (simp add: sample_defs getitem_def regex_defs)

text \<open>
  C10. \<open>read_user\<close> with the empty string as id looks nothing up: it returns the whole
  collection, which is also its result when the id is omitted (\<^verbatim>\<open>None\<close>).
\<close>

theorem read_user_empty_id:
  "read_user s (VStr []) = Inr (RAll (users s)) \<and> read_user s (VStr []) = read_user s VNone"
  by (simp add: read_user_def)

end
